theory Spec2Isabelle
  imports Complex_Main "HOL-Library.AList"
begin

section \<open>Smart-Split: the balance-netting and settlement engine (utils/graphAlgo)\<close>

text \<open>
  The engine is the two functions \<^verbatim>\<open>calculateNetBalances\<close> and \<^verbatim>\<open>simplifyDebts\<close>.

  Modelling decisions, which every theorem below depends on:
  \<^item> A JavaScript Number is modelled as a \<^typ>\<open>real\<close>: arithmetic is exact, the literal
    \<^verbatim>\<open>0.01\<close> is exactly one hundredth, and neither NaN nor an infinity exists. The theorems
    therefore speak about the algorithm, not about IEEE-754 rounding drift.
  \<^item> A participant is the string that \<^verbatim>\<open>toString()\<close> yields for a Mongo ObjectId (24 hexadecimal
    characters). Such a key is neither an array-index key nor a name inherited from
    \<^verbatim>\<open>Object.prototype\<close>, so a plain JavaScript object keyed by participants is an association
    list with distinct keys in insertion order, and \<^verbatim>\<open>Object.entries\<close> enumerates it in that order.
  \<^item> \<^verbatim>\<open>balances[k] = v\<close> is \<^const>\<open>AList.update\<close>: it overwrites in place when the key exists and
    appends at the end otherwise. \<^verbatim>\<open>balances[k] !== undefined\<close> is \<^term>\<open>map_of balances k \<noteq> None\<close>.
\<close>

subsection \<open>Data\<close>

text \<open>An Expense document; only the three fields the engine reads.
  \<^verbatim>\<open>splitBetween\<close> is optional because the code guards it with \<^verbatim>\<open>splitBetween && ...\<close>.\<close>

record expense =
  paidBy :: string
  amount :: real
  splitBetween :: "string list option"

type_synonym balances = "(string \<times> real) list"

text \<open>The working objects \<^verbatim>\<open>{ member, amount }\<close> that \<^verbatim>\<open>simplifyDebts\<close> pushes on its two arrays.\<close>

record entry =
  member :: string
  amount :: real

text \<open>A settlement \<^verbatim>\<open>{ from, to, amount }\<close>.\<close>

record edge =
  "from" :: string
  to :: string
  amount :: real

subsection \<open>calculateNetBalances\<close>

text \<open>Step 1 of the source: \<^verbatim>\<open>groupMembers.forEach(memberId => { balances[memberId.toString()] = 0 })\<close>.\<close>

definition init_balances :: "string list \<Rightarrow> balances" where
  "init_balances groupMembers = foldl (\<lambda>balances memberId. AList.update memberId 0 balances) [] groupMembers"

text \<open>\<^verbatim>\<open>involvedIds\<close>: the beneficiaries when the array is present and non-empty, the roster otherwise.\<close>

definition involvedIds :: "expense \<Rightarrow> string list \<Rightarrow> string list" where
  "involvedIds e groupMembers =
     (case splitBetween e of
        Some ids \<Rightarrow> if length ids > 0 then ids else groupMembers
      | None \<Rightarrow> groupMembers)"

text \<open>\<^verbatim>\<open>if (balances[payerId] !== undefined) balances[payerId] += amount\<close>.\<close>

definition credit :: "balances \<Rightarrow> string \<Rightarrow> real \<Rightarrow> balances" where
  "credit balances payerId a =
     (case map_of balances payerId of
        None \<Rightarrow> balances
      | Some v \<Rightarrow> AList.update payerId (v + a) balances)"

text \<open>\<^verbatim>\<open>if (balances[id] !== undefined) balances[id] -= splitAmount\<close>.\<close>

definition debit :: "real \<Rightarrow> balances \<Rightarrow> string \<Rightarrow> balances" where
  "debit splitAmount balances i =
     (case map_of balances i of
        None \<Rightarrow> balances
      | Some v \<Rightarrow> AList.update i (v - splitAmount) balances)"

text \<open>The body of \<^verbatim>\<open>expenses.forEach\<close>. When \<^verbatim>\<open>involvedIds\<close> is empty (the roster is empty)
  JavaScript computes \<^verbatim>\<open>amount / 0\<close>, an infinity or NaN, and HOL computes \<open>0\<close>; the value is never
  used, because the loop over the empty \<^verbatim>\<open>involvedIds\<close> has no iteration.\<close>

definition process_expense :: "string list \<Rightarrow> balances \<Rightarrow> expense \<Rightarrow> balances" where
  "process_expense groupMembers balances e =
     (let payerId = paidBy e;
          ids = involvedIds e groupMembers;
          splitAmount = expense.amount e / real (length ids);
          balances1 = credit balances payerId (expense.amount e)
      in foldl (debit splitAmount) balances1 ids)"

definition calculateNetBalances :: "expense list \<Rightarrow> string list \<Rightarrow> balances" where
  "calculateNetBalances expenses groupMembers =
     foldl (process_expense groupMembers) (init_balances groupMembers) expenses"

text \<open>The involved participants as the specification words them: the beneficiaries if there
  are any, the roster otherwise.\<close>

definition spec_involved :: "expense \<Rightarrow> string list \<Rightarrow> string list" where
  "spec_involved e roster =
     (case splitBetween e of None \<Rightarrow> roster | Some [] \<Rightarrow> roster | Some (b # bs) \<Rightarrow> b # bs)"

text \<open>What one transaction contributes to the balance of participant \<open>p\<close>: the amount if \<open>p\<close>
  paid, less one share for every time \<open>p\<close> is listed among the involved.\<close>

definition net_effect :: "string list \<Rightarrow> expense \<Rightarrow> string \<Rightarrow> real" where
  "net_effect roster e p =
     (if paidBy e = p then expense.amount e else 0)
     - real (count_list (spec_involved e roster) p)
       * (expense.amount e / real (length (spec_involved e roster)))"

text \<open>A transaction all of whose participants are on the roster.\<close>

definition on_roster :: "string list \<Rightarrow> expense \<Rightarrow> bool" where
  "on_roster roster e \<longleftrightarrow>
     paidBy e \<in> set roster \<and>
     (case splitBetween e of None \<Rightarrow> True | Some ids \<Rightarrow> list_all (\<lambda>i. i \<in> set roster) ids)"

subsection \<open>simplifyDebts\<close>

text \<open>The program state of one call: the argument object, the two arrays of working objects,
  the output array and the two indices.\<close>

record state =
  netBalances :: balances
  givers :: "entry list"
  receivers :: "entry list"
  results :: "edge list"
  giverIdx :: nat
  receiverIdx :: nat

text \<open>Step 1, the loop over \<^verbatim>\<open>Object.entries(netBalances)\<close>.\<close>

definition separate_step :: "entry list \<times> entry list \<Rightarrow> string \<times> real \<Rightarrow> entry list \<times> entry list" where
  "separate_step acc kv =
     (case (acc, kv) of ((gs, rs), (m, a)) \<Rightarrow>
        if a < - 0.01 then (gs @ [\<lparr>member = m, amount = a\<rparr>], rs)
        else if a > 0.01 then (gs, rs @ [\<lparr>member = m, amount = a\<rparr>])
        else (gs, rs))"

definition separate :: "balances \<Rightarrow> entry list \<times> entry list" where
  "separate nb = foldl separate_step ([], []) nb"

text \<open>Step 2. \<^verbatim>\<open>Array.prototype.sort\<close> is stable, and so is \<^const>\<open>sort_key\<close>:
  ascending by amount for the givers, descending for the receivers.\<close>

definition sort_givers :: "entry list \<Rightarrow> entry list" where
  "sort_givers gs = sort_key entry.amount gs"

definition sort_receivers :: "entry list \<Rightarrow> entry list" where
  "sort_receivers rs = sort_key (\<lambda>e. - entry.amount e) rs"

text \<open>\<^verbatim>\<open>Number(x.toFixed(2))\<close>: the nearest multiple of one hundredth to the magnitude, the larger
  one at a tie, with the sign put back. (From \<open>10\<^sup>2\<^sup>1\<close> on \<^verbatim>\<open>toFixed\<close> prints the number itself;
  every double that large is a whole number, on which rounding to hundredths is the identity
  as well, so the model has no separate case for it.)\<close>

definition toFixed2 :: "real \<Rightarrow> real" where
  "toFixed2 x =
     (if x < 0 then - (of_int \<lfloor>- x * 100 + 1 / 2\<rfloor> / 100)
      else of_int \<lfloor>x * 100 + 1 / 2\<rfloor> / 100)"

definition init_state :: "balances \<Rightarrow> state" where
  "init_state nb =
     (case separate nb of (gs, rs) \<Rightarrow>
        \<lparr>netBalances = nb, givers = sort_givers gs, receivers = sort_receivers rs,
         results = [], giverIdx = 0, receiverIdx = 0\<rparr>)"

text \<open>The guard of the \<^verbatim>\<open>while\<close> loop.\<close>

definition loop_cond :: "state \<Rightarrow> bool" where
  "loop_cond s \<longleftrightarrow> giverIdx s < length (givers s) \<and> receiverIdx s < length (receivers s)"

text \<open>One iteration of the \<^verbatim>\<open>while\<close> loop. The two reads are in range under the guard.\<close>

definition loop_body :: "state \<Rightarrow> state" where
  "loop_body s =
     (let giver = givers s ! giverIdx s;
          receiver = receivers s ! receiverIdx s;
          amountToSettle = min \<bar>entry.amount giver\<bar> (entry.amount receiver);
          results1 =
            (if amountToSettle > 0.01
             then results s @ [\<lparr>from = member giver, to = member receiver,
                                amount = toFixed2 amountToSettle\<rparr>]
             else results s);
          giver1 = giver\<lparr>entry.amount := entry.amount giver + amountToSettle\<rparr>;
          receiver1 = receiver\<lparr>entry.amount := entry.amount receiver - amountToSettle\<rparr>
      in \<lparr>netBalances = netBalances s,
          givers = (givers s)[giverIdx s := giver1],
          receivers = (receivers s)[receiverIdx s := receiver1],
          results = results1,
          giverIdx = (if \<bar>entry.amount giver1\<bar> < 0.01 then giverIdx s + 1 else giverIdx s),
          receiverIdx = (if entry.amount receiver1 < 0.01 then receiverIdx s + 1 else receiverIdx s)\<rparr>)"

text \<open>The amount that the iteration at \<open>s\<close> settles (\<^verbatim>\<open>amountToSettle\<close> in the loop body).\<close>

definition amountToSettle :: "state \<Rightarrow> real" where
  "amountToSettle s =
     min \<bar>entry.amount (givers s ! giverIdx s)\<bar> (entry.amount (receivers s ! receiverIdx s))"

text \<open>The loop. It is a partial function: \<open>None\<close> stands for a loop that never exits.\<close>

partial_function (option) match_loop :: "state \<Rightarrow> state option" where
  "match_loop s = (if loop_cond s then match_loop (loop_body s) else Some s)"

declare match_loop.simps [code]

text \<open>The call, as a state transformer, and the value it returns.\<close>

definition simplifyDebts_run :: "balances \<Rightarrow> state option" where
  "simplifyDebts_run nb = match_loop (init_state nb)"

definition simplifyDebts :: "balances \<Rightarrow> edge list option" where
  "simplifyDebts nb = map_option results (simplifyDebts_run nb)"

subsection \<open>The loop invariant and its variant\<close>

text \<open>Every working object not yet passed is still a debtor (at most \<open>-0.01\<close>), respectively a
  creditor (at least \<open>0.01\<close>).\<close>

definition loop_inv :: "state \<Rightarrow> bool" where
  "loop_inv s \<longleftrightarrow>
     giverIdx s \<le> length (givers s) \<and> receiverIdx s \<le> length (receivers s) \<and>
     list_all (\<lambda>e. entry.amount e \<le> - 0.01) (drop (giverIdx s) (givers s)) \<and>
     list_all (\<lambda>e. 0.01 \<le> entry.amount e) (drop (receiverIdx s) (receivers s))"

definition remaining :: "state \<Rightarrow> nat" where
  "remaining s = (length (givers s) - giverIdx s) + (length (receivers s) - receiverIdx s)"

text \<open>What one iteration does at \<open>s\<close>: the side with the smaller magnitude is brought to
  exactly zero and its index advances; no index goes back.\<close>

definition settles_one_side :: "state \<Rightarrow> bool" where
  "settles_one_side s \<longleftrightarrow>
     (let t = loop_body s;
          giver = givers s ! giverIdx s;
          receiver = receivers s ! receiverIdx s
      in (\<bar>entry.amount giver\<bar> \<le> entry.amount receiver \<longrightarrow>
            entry.amount (givers t ! giverIdx s) = 0 \<and> giverIdx t = giverIdx s + 1) \<and>
         (entry.amount receiver \<le> \<bar>entry.amount giver\<bar> \<longrightarrow>
            entry.amount (receivers t ! receiverIdx s) = 0 \<and> receiverIdx t = receiverIdx s + 1) \<and>
         giverIdx s \<le> giverIdx t \<and> receiverIdx s \<le> receiverIdx t)"

subsection \<open>The algorithm as the specification words it\<close>

text \<open>A second description of the simplifier, written from the specification and not from
  the code: participants are pairs, the lists are consumed from the head, and the emitted
  edge is put in front of what the rest of the matching emits.

  The specification leaves out of both lists the participants \<open>within \<epsilon> of zero\<close>, and
  debtors are \<open>b < -\<epsilon>\<close>, creditors \<open>b > \<epsilon>\<close>: so \<open>within \<epsilon> of zero\<close> is \<open>\<bar>b\<bar> \<le> \<epsilon>\<close>
  (\<open>within_eps\<close>). The same words say when the matching passes a participant. That test
  is a parameter of the matching here, so that the algorithm can be stated with the
  reading of the partition and with the strict one (\<open>strictly_within_eps\<close>).\<close>

definition spec_eps :: real where
  "spec_eps = 0.01"

definition debtors_of :: "balances \<Rightarrow> balances" where
  "debtors_of nb = filter (\<lambda>(p, b). b < - spec_eps) nb"

definition creditors_of :: "balances \<Rightarrow> balances" where
  "creditors_of nb = filter (\<lambda>(p, b). b > spec_eps) nb"

definition spec_debtors :: "balances \<Rightarrow> balances" where
  "spec_debtors nb = sort_key (\<lambda>(p, b). b) (debtors_of nb)"

definition spec_creditors :: "balances \<Rightarrow> balances" where
  "spec_creditors nb = sort_key (\<lambda>(p, b). - b) (creditors_of nb)"

definition within_eps :: "real \<Rightarrow> bool" where
  "within_eps b \<longleftrightarrow> \<bar>b\<bar> \<le> spec_eps"

definition strictly_within_eps :: "real \<Rightarrow> bool" where
  "strictly_within_eps b \<longleftrightarrow> \<bar>b\<bar> < spec_eps"

definition spec_round2 :: "real \<Rightarrow> real" where
  "spec_round2 x = of_int (round (x * 100)) / 100"

partial_function (option) spec_match ::
    "(real \<Rightarrow> bool) \<Rightarrow> balances \<Rightarrow> balances \<Rightarrow> edge list option" where
  "spec_match passed debtors creditors =
     (case debtors of
        [] \<Rightarrow> Some []
      | (d, db) # debtors1 \<Rightarrow>
          (case creditors of
             [] \<Rightarrow> Some []
           | (c, cb) # creditors1 \<Rightarrow>
               (let amountToSettle = min \<bar>db\<bar> cb;
                    emitted =
                      (if amountToSettle > spec_eps
                       then [\<lparr>from = d, to = c, amount = spec_round2 amountToSettle\<rparr>]
                       else []);
                    db1 = db + amountToSettle;
                    cb1 = cb - amountToSettle
                in Option.bind
                     (spec_match passed
                        (if passed db1 then debtors1 else (d, db1) # debtors1)
                        (if passed cb1 then creditors1 else (c, cb1) # creditors1))
                     (\<lambda>rest. Some (emitted @ rest)))))"

declare spec_match.simps [code]

definition spec_simplifyDebts :: "(real \<Rightarrow> bool) \<Rightarrow> balances \<Rightarrow> edge list option" where
  "spec_simplifyDebts passed nb = spec_match passed (spec_debtors nb) (spec_creditors nb)"

text \<open>A working object of the code, read as the participant and balance of the specification.\<close>

definition entry_pair :: "entry \<Rightarrow> string \<times> real" where
  "entry_pair e = (member e, entry.amount e)"

subsection \<open>Applying a settlement plan to a balance map\<close>

text \<open>The specification's check of a plan: for every edge, the debtor's balance \<open>+= amount\<close>
  and the creditor's balance \<open>-= amount\<close>. A participant without an entry counts as \<open>0\<close>.\<close>

definition balance_of :: "balances \<Rightarrow> string \<Rightarrow> real" where
  "balance_of nb p = (case map_of nb p of Some b \<Rightarrow> b | None \<Rightarrow> 0)"

definition apply_edge :: "(string \<Rightarrow> real) \<Rightarrow> edge \<Rightarrow> (string \<Rightarrow> real)" where
  "apply_edge bal e =
     (let bal1 = bal(from e := bal (from e) + edge.amount e)
      in bal1(to e := bal1 (to e) - edge.amount e))"

definition apply_edges :: "balances \<Rightarrow> edge list \<Rightarrow> string \<Rightarrow> real" where
  "apply_edges nb es = foldl apply_edge (balance_of nb) es"

text \<open>\<open>b\<close> is a whole number of units \<open>u\<close>.\<close>

definition multiple_of :: "real \<Rightarrow> real \<Rightarrow> bool" where
  "multiple_of u b \<longleftrightarrow> of_int \<lfloor>b / u\<rfloor> * u = b"

text \<open>What a participant pays and receives under a plan.\<close>

definition paid :: "edge list \<Rightarrow> string \<Rightarrow> real" where
  "paid es p = sum_list (map edge.amount (filter (\<lambda>e. from e = p) es))"

definition received :: "edge list \<Rightarrow> string \<Rightarrow> real" where
  "received es p = sum_list (map edge.amount (filter (\<lambda>e. to e = p) es))"

subsection \<open>The invariant of the loop on balances in whole units\<close>

text \<open>When every balance is a whole number of units \<open>u\<close>, the loop keeps, relative to its
  initial state \<open>s0\<close>: the members of both arrays; each working balance as the
  initial balance plus what the member pays, respectively minus what the member receives,
  under the edges emitted so far; whole units everywhere; a balance of exactly zero for
  everyone already passed; and the sum of all working balances.\<close>

definition exact_inv :: "real \<Rightarrow> state \<Rightarrow> state \<Rightarrow> bool" where
  "exact_inv u s0 s \<longleftrightarrow>
     map member (givers s) = map member (givers s0) \<and>
     map member (receivers s) = map member (receivers s0) \<and>
     map entry.amount (givers s) =
       map (\<lambda>e. entry.amount e + paid (results s) (member e)) (givers s0) \<and>
     map entry.amount (receivers s) =
       map (\<lambda>e. entry.amount e - received (results s) (member e)) (receivers s0) \<and>
     list_all (\<lambda>e. multiple_of u (entry.amount e)) (givers s) \<and>
     list_all (\<lambda>e. multiple_of u (entry.amount e)) (receivers s) \<and>
     list_all (\<lambda>e. entry.amount e = 0) (take (giverIdx s) (givers s)) \<and>
     list_all (\<lambda>e. entry.amount e = 0) (take (receiverIdx s) (receivers s)) \<and>
     sum_list (map entry.amount (givers s)) + sum_list (map entry.amount (receivers s)) =
       sum_list (map entry.amount (givers s0)) + sum_list (map entry.amount (receivers s0))"

section \<open>Properties\<close>

text \<open>The claims are proved in this order: C9 (the loop exits); C10, C4 and C2
  (\<^verbatim>\<open>calculateNetBalances\<close>); C8, C7 and C6 (the edges of \<^verbatim>\<open>simplifyDebts\<close>); C5 (invalid
  input); C3 (the code against the algorithm of the specification); C1 (applying the plan
  to the balances).\<close>

subsection \<open>The partition and the initial state\<close>

lemma separate_step_fold:
  "foldl separate_step (gs, rs) nb =
     (gs @ map (\<lambda>(m, a). \<lparr>member = m, amount = a\<rparr>) (filter (\<lambda>(m, a). a < - 0.01) nb),
      rs @ map (\<lambda>(m, a). \<lparr>member = m, amount = a\<rparr>) (filter (\<lambda>(m, a). a > 0.01) nb))"
  by (induction nb arbitrary: gs rs) (auto simp: separate_step_def)

lemma separate_eq:
  "separate nb =
     (map (\<lambda>(m, a). \<lparr>member = m, amount = a\<rparr>) (filter (\<lambda>(m, a). a < - 0.01) nb),
      map (\<lambda>(m, a). \<lparr>member = m, amount = a\<rparr>) (filter (\<lambda>(m, a). a > 0.01) nb))"
  by (simp add: separate_def separate_step_fold)

lemma init_state_simps:
  "givers (init_state nb) = sort_givers (fst (separate nb))"
  "receivers (init_state nb) = sort_receivers (snd (separate nb))"
  "results (init_state nb) = []" "giverIdx (init_state nb) = 0" "receiverIdx (init_state nb) = 0"
  "netBalances (init_state nb) = nb"
  by (simp_all add: init_state_def split: prod.splits)

lemma loop_inv_init: "loop_inv (init_state nb)"
  by (auto simp: loop_inv_def init_state_simps separate_eq sort_givers_def sort_receivers_def list_all_iff)

subsection \<open>The loop: invariant, variant and a rule for its result\<close>

lemma loop_body_length [simp]:
  "length (givers (loop_body s)) = length (givers s)"
  "length (receivers (loop_body s)) = length (receivers s)"
  by (simp_all add: loop_body_def Let_def)

lemma loop_inv_heads:
  assumes "loop_inv s" "loop_cond s"
  shows "entry.amount (givers s ! giverIdx s) \<le> - 0.01"
    and "0.01 \<le> entry.amount (receivers s ! receiverIdx s)"
proof -
  from assms(2) have "drop (giverIdx s) (givers s) =
      givers s ! giverIdx s # drop (Suc (giverIdx s)) (givers s)"
    and "drop (receiverIdx s) (receivers s) =
      receivers s ! receiverIdx s # drop (Suc (receiverIdx s)) (receivers s)"
    by (simp_all add: loop_cond_def Cons_nth_drop_Suc)
  with assms(1) show "entry.amount (givers s ! giverIdx s) \<le> - 0.01"
    and "0.01 \<le> entry.amount (receivers s ! receiverIdx s)"
    by (simp_all add: loop_inv_def)
qed

lemma loop_inv_step:
  assumes "loop_inv s" "loop_cond s"
  shows "loop_inv (loop_body s)" and "remaining (loop_body s) < remaining s"
proof -
  let ?gi = "giverIdx s" and ?ri = "receiverIdx s"
  from assms have gi: "?gi < length (givers s)" and ri: "?ri < length (receivers s)"
    by (simp_all add: loop_cond_def)
  have dg: "drop ?gi (givers s) = givers s ! ?gi # drop (Suc ?gi) (givers s)"
    using gi by (simp add: Cons_nth_drop_Suc)
  have dr: "drop ?ri (receivers s) = receivers s ! ?ri # drop (Suc ?ri) (receivers s)"
    using ri by (simp add: Cons_nth_drop_Suc)
  from assms(1) have g: "entry.amount (givers s ! ?gi) \<le> - 0.01"
    and gs: "list_all (\<lambda>e. entry.amount e \<le> - 0.01) (drop (Suc ?gi) (givers s))"
    and r: "0.01 \<le> entry.amount (receivers s ! ?ri)"
    and rs: "list_all (\<lambda>e. 0.01 \<le> entry.amount e) (drop (Suc ?ri) (receivers s))"
    unfolding loop_inv_def dg dr by simp_all
  show "loop_inv (loop_body s)"
    using gi ri g gs r rs
    by (auto simp: loop_inv_def loop_body_def Let_def drop_update_swap min_def
          simp flip: Cons_nth_drop_Suc)
  show "remaining (loop_body s) < remaining s"
    using gi ri g r
    by (auto simp: remaining_def loop_body_def Let_def min_def)
qed


lemma match_loop_rule:
  assumes "loop_inv s" and "I s"
    and step: "\<And>t. loop_inv t \<Longrightarrow> I t \<Longrightarrow> loop_cond t \<Longrightarrow> I (loop_body t)"
  shows "\<exists>t. match_loop s = Some t \<and> loop_inv t \<and> I t \<and> \<not> loop_cond t"
  using assms(1,2)
proof (induction "remaining s" arbitrary: s rule: less_induct)
  case less
  show ?case
  proof (cases "loop_cond s")
    case False
    with less.prems show ?thesis
      by (subst match_loop.simps) simp
  next
    case True
    from loop_inv_step[OF less.prems(1) True] step[OF less.prems True]
    have "\<exists>t. match_loop (loop_body s) = Some t \<and> loop_inv t \<and> I t \<and> \<not> loop_cond t"
      by (intro less.hyps) simp_all
    with True show ?thesis
      by (subst match_loop.simps) simp
  qed
qed

lemma match_loop_iterations:
  assumes "loop_inv s"
  shows "\<exists>n\<le>remaining s. match_loop s = Some ((loop_body ^^ n) s) \<and>
           \<not> loop_cond ((loop_body ^^ n) s) \<and>
           (\<forall>k<n. loop_cond ((loop_body ^^ k) s) \<and> loop_inv ((loop_body ^^ k) s))"
  using assms
proof (induction "remaining s" arbitrary: s rule: less_induct)
  case less
  show ?case
  proof (cases "loop_cond s")
    case False
    then have "match_loop s = Some ((loop_body ^^ 0) s)"
      by (subst match_loop.simps) simp
    with False show ?thesis by (intro exI[of _ 0]) simp
  next
    case True
    note st = loop_inv_step[OF less.prems True]
    from less.hyps[OF st(2) st(1)] obtain n where n: "n \<le> remaining (loop_body s)"
      "match_loop (loop_body s) = Some ((loop_body ^^ n) (loop_body s))"
      "\<not> loop_cond ((loop_body ^^ n) (loop_body s))"
      "\<forall>k<n. loop_cond ((loop_body ^^ k) (loop_body s)) \<and> loop_inv ((loop_body ^^ k) (loop_body s))"
      by blast
    have a: "Suc n \<le> remaining s" using n(1) st(2) by simp
    have b: "match_loop s = Some ((loop_body ^^ Suc n) s)"
      using True n(2) by (subst match_loop.simps) (simp add: funpow_swap1)
    have c: "\<not> loop_cond ((loop_body ^^ Suc n) s)"
      using n(3) by (simp add: funpow_swap1)
    have d: "\<forall>k<Suc n. loop_cond ((loop_body ^^ k) s) \<and> loop_inv ((loop_body ^^ k) s)"
    proof (intro allI impI)
      fix k assume "k < Suc n"
      show "loop_cond ((loop_body ^^ k) s) \<and> loop_inv ((loop_body ^^ k) s)"
      proof (cases k)
        case 0
        with True less.prems show ?thesis by simp
      next
        case (Suc j)
        with \<open>k < Suc n\<close> n(4) show ?thesis by (simp add: funpow_swap1)
      qed
    qed
    from a b c d show ?thesis by blast
  qed
qed

subsection \<open>Termination of the matching loop\<close>

lemma loop_body_settles:
  assumes "loop_inv s" "loop_cond s"
  shows "settles_one_side s"
proof -
  let ?gi = "giverIdx s" and ?ri = "receiverIdx s"
  from assms have gi: "?gi < length (givers s)" and ri: "?ri < length (receivers s)"
    by (simp_all add: loop_cond_def)
  note g = loop_inv_heads(1)[OF assms] and r = loop_inv_heads(2)[OF assms]
  show ?thesis
    using gi ri g r
    by (auto simp: settles_one_side_def loop_body_def Let_def min_def)
qed

text \<open>C9: the matching loop of \<^verbatim>\<open>simplifyDebts\<close> exits on every balance map, after at most
  \<open>|givers| + |receivers|\<close> iterations, and \<^verbatim>\<open>simplifyDebts\<close> returns the edges of the state it exits
  in. In every iteration that runs, the amount settled is the smaller of the two active
  magnitudes: that side's working balance becomes exactly zero and its index advances, and
  no index ever goes back.\<close>

theorem match_loop_terminates:
  "\<exists>n\<le>length (givers (init_state nb)) + length (receivers (init_state nb)).
     match_loop (init_state nb) = Some ((loop_body ^^ n) (init_state nb)) \<and>
     simplifyDebts nb = Some (results ((loop_body ^^ n) (init_state nb))) \<and>
     \<not> loop_cond ((loop_body ^^ n) (init_state nb)) \<and>
     (\<forall>k<n. loop_cond ((loop_body ^^ k) (init_state nb)) \<and>
            settles_one_side ((loop_body ^^ k) (init_state nb)))"
proof -
  from match_loop_iterations[OF loop_inv_init[of nb]]
  obtain n where n: "n \<le> remaining (init_state nb)"
    "match_loop (init_state nb) = Some ((loop_body ^^ n) (init_state nb))"
    "\<not> loop_cond ((loop_body ^^ n) (init_state nb))"
    "\<forall>k<n. loop_cond ((loop_body ^^ k) (init_state nb)) \<and> loop_inv ((loop_body ^^ k) (init_state nb))"
    by blast
  have "remaining (init_state nb) = length (givers (init_state nb)) + length (receivers (init_state nb))"
    by (simp add: remaining_def init_state_simps)
  with n(1) have a: "n \<le> length (givers (init_state nb)) + length (receivers (init_state nb))"
    by simp
  have b: "simplifyDebts nb = Some (results ((loop_body ^^ n) (init_state nb)))"
    by (simp add: simplifyDebts_def simplifyDebts_run_def n(2))
  have c: "\<forall>k<n. loop_cond ((loop_body ^^ k) (init_state nb)) \<and>
            settles_one_side ((loop_body ^^ k) (init_state nb))"
    using n(4) by (auto intro: loop_body_settles)
  from a b c n(2,3) show ?thesis by blast
qed

text \<open>On the balances \<open>A: 200, B: -100, C: -100\<close> the loop runs (its guard holds at the start),
  so the theorem's statement about the iterations is not empty: the first iteration settles
  one side.\<close>

theorem match_loop_terminates_witness:
  "loop_cond (init_state [(''A'', 200), (''B'', - 100), (''C'', - 100)]) \<and>
   settles_one_side (init_state [(''A'', 200), (''B'', - 100), (''C'', - 100)]) \<and>
   (\<exists>n\<le>3. simplifyDebts [(''A'', 200), (''B'', - 100), (''C'', - 100)] =
              Some (results ((loop_body ^^ n) (init_state [(''A'', 200), (''B'', - 100), (''C'', - 100)]))))"
proof -
  let ?nb = "[(''A'', 200), (''B'', - 100), (''C'', - 100)] :: balances"
  have len: "length (givers (init_state ?nb)) + length (receivers (init_state ?nb)) = 3"
    by code_simp
  have c0: "loop_cond (init_state ?nb)"
    by code_simp
  from match_loop_terminates[of ?nb] obtain n where n: "n \<le> 3"
    "simplifyDebts ?nb = Some (results ((loop_body ^^ n) (init_state ?nb)))"
    "\<not> loop_cond ((loop_body ^^ n) (init_state ?nb))"
    "\<forall>k<n. loop_cond ((loop_body ^^ k) (init_state ?nb)) \<and>
            settles_one_side ((loop_body ^^ k) (init_state ?nb))"
    unfolding len by blast
  from c0 n(3) have "0 < n" by (cases n) auto
  with n(4) have "settles_one_side ((loop_body ^^ 0) (init_state ?nb))" by blast
  with c0 n(1,2) show ?thesis by auto
qed

subsection \<open>calculateNetBalances: the keys of the result\<close>

lemma involvedIds_spec: "involvedIds e roster = spec_involved e roster"
  by (simp add: involvedIds_def spec_involved_def split: option.splits list.splits)

lemma update_present_keys:
  assumes "map_of b k = Some v"
  shows "map fst (AList.update k x b) = map fst b"
proof -
  from assms have "(k, v) \<in> set b" by (rule map_of_SomeD)
  then have "fst (k, v) \<in> fst ` set b" by (rule imageI)
  then show ?thesis by (simp add: update_keys)
qed

lemma credit_keys [simp]: "map fst (credit b p a) = map fst b"
  by (simp add: credit_def update_present_keys split: option.splits)

lemma debit_keys [simp]: "map fst (debit sa b i) = map fst b"
  by (simp add: debit_def update_present_keys split: option.splits)

lemma foldl_debit_keys [simp]: "map fst (foldl (debit sa) b ids) = map fst b"
  by (induction ids arbitrary: b) simp_all

lemma process_expense_keys [simp]: "map fst (process_expense r b e) = map fst b"
  by (simp add: process_expense_def Let_def)

lemma foldl_process_keys [simp]: "map fst (foldl (process_expense r) b es) = map fst b"
  by (induction es arbitrary: b) simp_all

lemma foldl_init_keys:
  "set (map fst (foldl (\<lambda>balances memberId. AList.update memberId 0 balances) b r)) =
     set (map fst b) \<union> set r"
  by (induction r arbitrary: b) (simp_all add: dom_update Un_ac)

lemma foldl_init_distinct:
  "distinct (map fst b) \<Longrightarrow>
   distinct (map fst (foldl (\<lambda>balances memberId. AList.update memberId (0::real) balances) b r))"
  by (induction r arbitrary: b) (simp_all add: distinct_update)

lemma init_balances_keys: "set (map fst (init_balances r)) = set r"
  using foldl_init_keys[of "[]" r] by (simp add: init_balances_def)

lemma init_balances_distinct: "distinct (map fst (init_balances r))"
  by (simp add: init_balances_def foldl_init_distinct)

lemma calculateNetBalances_keys:
  "map fst (calculateNetBalances es r) = map fst (init_balances r)"
  by (simp add: calculateNetBalances_def)


subsection \<open>The balance of one participant\<close>

lemma map_of_credit:
  "map_of (credit b p a) q =
     map_option (\<lambda>v. v + (if p = q then a else 0)) (map_of b q)"
  by (cases "map_of b p"; cases "map_of b q") (auto simp: credit_def update_conv')

lemma map_of_debit:
  "map_of (debit sa b i) q =
     map_option (\<lambda>v. v - (if i = q then sa else 0)) (map_of b q)"
  by (cases "map_of b i"; cases "map_of b q") (auto simp: debit_def update_conv')

lemma map_of_foldl_debit:
  "map_of (foldl (debit sa) b ids) q =
     map_option (\<lambda>v. v - real (count_list ids q) * sa) (map_of b q)"
proof (induction ids arbitrary: b)
  case Nil
  show ?case by (simp add: option.map_ident)
next
  case (Cons i ids)
  show ?case
    by (cases "map_of b q") (simp_all add: Cons.IH map_of_debit algebra_simps)
qed

lemma map_of_process_expense:
  "map_of (process_expense r b e) q = map_option (\<lambda>v. v + net_effect r e q) (map_of b q)"
  by (cases "map_of b q")
     (simp_all add: process_expense_def Let_def map_of_foldl_debit map_of_credit
        net_effect_def involvedIds_spec)

lemma map_of_foldl_process:
  "map_of (foldl (process_expense r) b es) q =
     map_option (\<lambda>v. v + (\<Sum>e\<leftarrow>es. net_effect r e q)) (map_of b q)"
proof (induction es arbitrary: b)
  case Nil
  show ?case by (simp add: option.map_ident)
next
  case (Cons e es)
  show ?case
    by (cases "map_of b q") (simp_all add: Cons.IH map_of_process_expense algebra_simps)
qed

lemma map_of_init_balances:
  "map_of (init_balances r) q = (if q \<in> set r then Some 0 else None)"
proof -
  have "map_of (foldl (\<lambda>balances memberId. AList.update memberId (0::real) balances) b r) q =
          (if q \<in> set r then Some 0 else map_of b q)" for b
    by (induction r arbitrary: b) (simp_all add: update_conv')
  from this[of "[]"] show ?thesis by (simp add: init_balances_def)
qed

lemma map_of_calculateNetBalances:
  "map_of (calculateNetBalances es r) q =
     (if q \<in> set r then Some (\<Sum>e\<leftarrow>es. net_effect r e q) else None)"
  by (simp add: calculateNetBalances_def map_of_foldl_process map_of_init_balances)

subsection \<open>The sum of the balances\<close>

lemma sum_update_present:
  "map_of b k = Some v \<Longrightarrow>
     sum_list (map snd (AList.update k x b)) = sum_list (map snd b) - v + (x::real)"
  by (induction b) (auto split: if_splits)

lemma keys_dom: "map fst b' = map fst b \<Longrightarrow> fst ` set b' = fst ` set b"
  by (metis set_map)

lemmas credit_dom [simp] = keys_dom[OF credit_keys]
  and debit_dom [simp] = keys_dom[OF debit_keys]
  and process_expense_dom [simp] = keys_dom[OF process_expense_keys]

lemma sum_credit:
  "sum_list (map snd (credit b p a)) =
     sum_list (map snd b) + (if p \<in> fst ` set b then a else 0)"
proof (cases "map_of b p")
  case None
  then have "p \<notin> fst ` set b" by (simp add: map_of_eq_None_iff)
  with None show ?thesis by (simp add: credit_def)
next
  case (Some v)
  then have "(p, v) \<in> set b" by (rule map_of_SomeD)
  then have "fst (p, v) \<in> fst ` set b" by (rule imageI)
  with Some show ?thesis by (simp add: credit_def sum_update_present)
qed

lemma sum_debit:
  "sum_list (map snd (debit sa b i)) =
     sum_list (map snd b) - (if i \<in> fst ` set b then sa else 0)"
proof (cases "map_of b i")
  case None
  then have "i \<notin> fst ` set b" by (simp add: map_of_eq_None_iff)
  with None show ?thesis by (simp add: debit_def)
next
  case (Some v)
  then have "(i, v) \<in> set b" by (rule map_of_SomeD)
  then have "fst (i, v) \<in> fst ` set b" by (rule imageI)
  with Some show ?thesis by (simp add: debit_def sum_update_present)
qed

lemma sum_foldl_debit:
  "sum_list (map snd (foldl (debit sa) b ids)) =
     sum_list (map snd b) - real (length (filter (\<lambda>i. i \<in> fst ` set b) ids)) * sa"
proof (induction ids arbitrary: b)
  case Nil
  show ?case by simp
next
  case (Cons i ids)
  show ?case
    by (cases "i \<in> fst ` set b") (simp_all add: Cons.IH sum_debit algebra_simps)
qed

lemma involved_on_roster:
  assumes "on_roster r e"
  shows "set (involvedIds e r) \<subseteq> set r" and "involvedIds e r \<noteq> []"
  using assms
  by (auto simp: on_roster_def involvedIds_def list_all_iff split: option.splits)

lemma sum_process_expense:
  assumes "on_roster r e" and "fst ` set b = set r"
  shows "sum_list (map snd (process_expense r b e)) = sum_list (map snd b)"
proof -
  let ?ids = "involvedIds e r"
  from assms have p: "paidBy e \<in> fst ` set b" by (simp add: on_roster_def)
  from involved_on_roster[OF assms(1)] assms(2)
  have f: "filter (\<lambda>i. i \<in> fst ` set b) ?ids = ?ids" and ne: "length ?ids \<noteq> 0"
    by (auto simp: filter_id_conv)
  from p ne show ?thesis
    by (simp add: process_expense_def Let_def sum_foldl_debit sum_credit f)
qed

lemma sum_foldl_process:
  assumes "list_all (on_roster r) es" and "fst ` set b = set r"
  shows "sum_list (map snd (foldl (process_expense r) b es)) = sum_list (map snd b)"
  using assms
proof (induction es arbitrary: b)
  case Nil
  show ?case by simp
next
  case (Cons e es)
  from Cons.prems have "fst ` set (process_expense r b e) = set r"
    by simp
  with Cons.prems Cons.IH[of "process_expense r b e"] show ?case
    by (simp add: sum_process_expense)
qed

lemma update_zero_values:
  "\<forall>kv\<in>set b. snd kv = (0::real) \<Longrightarrow> \<forall>kv\<in>set (AList.update m 0 b). snd kv = 0"
  by (induction b) auto

lemma sum_init_balances: "sum_list (map snd (init_balances r)) = 0"
proof -
  have "\<forall>kv\<in>set (foldl (\<lambda>balances memberId. AList.update memberId (0::real) balances) b r).
          snd kv = 0" if "\<forall>kv\<in>set b. snd kv = 0" for b
    using that
  proof (induction r arbitrary: b)
    case Nil
    then show ?case by simp
  next
    case (Cons m r)
    from Cons.IH[OF update_zero_values[OF Cons.prems]] show ?case by simp
  qed
  from this[of "[]"] have z: "\<forall>kv\<in>set (init_balances r). snd kv = 0"
    by (simp add: init_balances_def)
  have "sum_list (map snd xs) = 0" if "\<forall>kv\<in>set xs. snd kv = (0::real)" for xs :: balances
    using that by (induction xs) simp_all
  from this[OF z] show ?thesis .
qed

lemma sum_calculateNetBalances:
  assumes "list_all (on_roster r) es"
  shows "sum_list (map snd (calculateNetBalances es r)) = 0"
proof -
  have "fst ` set (init_balances r) = set r"
    using init_balances_keys[of r] by simp
  from sum_foldl_process[OF assms this] show ?thesis
    by (simp add: calculateNetBalances_def sum_init_balances)
qed

subsection \<open>calculateNetBalances: the claims\<close>

text \<open>C10: the keys of the map that \<^verbatim>\<open>calculateNetBalances\<close> returns are exactly the roster, each
  once, whatever the transactions: a payer or beneficiary who is not on the roster gets no
  entry, so the credit or debit is dropped, and a transaction with an off-roster payer can
  leave balances that do not sum to zero.\<close>

theorem calculateNetBalances_keys_are_roster:
  "set (map fst (calculateNetBalances es roster)) = set roster \<and>
   distinct (map fst (calculateNetBalances es roster)) \<and>
   (p \<notin> set roster \<longrightarrow> map_of (calculateNetBalances es roster) p = None) \<and>
   (\<exists>e r. paidBy e \<notin> set r \<and> sum_list (map snd (calculateNetBalances [e] r)) \<noteq> 0)"
proof -
  let ?e = "\<lparr>paidBy = ''P'', amount = 90, splitBetween = Some [''A'', ''Q'']\<rparr>"
  have "calculateNetBalances [?e] [''A'', ''B''] = [(''A'', - 45), (''B'', 0)]"
    by (simp add: calculateNetBalances_def init_balances_def process_expense_def
          involvedIds_def credit_def debit_def)
  then have "paidBy ?e \<notin> set [''A'', ''B''] \<and>
      sum_list (map snd (calculateNetBalances [?e] [''A'', ''B''])) \<noteq> 0"
    by simp
  then have "\<exists>e r. paidBy e \<notin> set r \<and> sum_list (map snd (calculateNetBalances [e] r)) \<noteq> 0"
    by blast
  then show ?thesis
    by (simp add: calculateNetBalances_keys init_balances_keys init_balances_distinct
          map_of_calculateNetBalances del: set_map)
qed

text \<open>With roster \<open>A, B\<close>, payer \<open>P\<close> and beneficiaries \<open>A, Q\<close>: neither \<open>P\<close> nor \<open>Q\<close> gets an
  entry, and the balances sum to \<open>-45\<close>.\<close>

theorem calculateNetBalances_keys_are_roster_witness:
  "''P'' \<notin> set [''A'', ''B''] \<and>
   map_of (calculateNetBalances
     [\<lparr>paidBy = ''P'', amount = 90, splitBetween = Some [''A'', ''Q'']\<rparr>] [''A'', ''B'']) ''P'' = None \<and>
   set (map fst (calculateNetBalances
     [\<lparr>paidBy = ''P'', amount = 90, splitBetween = Some [''A'', ''Q'']\<rparr>] [''A'', ''B''])) = {''A'', ''B''} \<and>
   calculateNetBalances
     [\<lparr>paidBy = ''P'', amount = 90, splitBetween = Some [''A'', ''Q'']\<rparr>] [''A'', ''B'']
     = [(''A'', - 45), (''B'', 0)]"
proof -
  have "calculateNetBalances
     [\<lparr>paidBy = ''P'', amount = 90, splitBetween = Some [''A'', ''Q'']\<rparr>] [''A'', ''B'']
     = [(''A'', - 45), (''B'', 0)]"
    by (simp add: calculateNetBalances_def init_balances_def process_expense_def
          involvedIds_def credit_def debit_def)
  with calculateNetBalances_keys_are_roster
    [of "[\<lparr>paidBy = ''P'', amount = 90, splitBetween = Some [''A'', ''Q'']\<rparr>]" "[''A'', ''B'']" "''P''"]
  show ?thesis by simp
qed

text \<open>C4, as amended: for every roster and every list of transactions, a participant on the
  roster has a balance, and it is the sum, over the transactions, of the full amount when
  the participant paid, less \<open>amount / |involved|\<close> for each listing among the involved,
  where the involved are the beneficiaries if there are any and the roster otherwise; a
  payer or beneficiary who is not on the roster has no balance, and that credit or debit
  is skipped. A payer on the roster who is listed once among the involved of a single
  transaction nets the amount less one share. For roster \<open>A, B\<close> and \<open>A\<close> paying 100 for \<open>A\<close>
  and \<open>B\<close> the result is \<open>A: 50, B: -50\<close>.\<close>

theorem calculateNetBalances_per_transaction:
  "map_of (calculateNetBalances es roster) p =
     (if p \<in> set roster then Some (\<Sum>e\<leftarrow>es. net_effect roster e p) else None) \<and>
   (p \<in> set roster \<and> paidBy e = p \<and> count_list (spec_involved e roster) p = 1 \<longrightarrow>
      map_of (calculateNetBalances [e] roster) p =
        Some (expense.amount e - expense.amount e / real (length (spec_involved e roster)))) \<and>
   calculateNetBalances [\<lparr>paidBy = ''A'', amount = 100, splitBetween = Some [''A'', ''B'']\<rparr>]
     [''A'', ''B''] = [(''A'', 50), (''B'', - 50)]"
proof -
  have "calculateNetBalances [\<lparr>paidBy = ''A'', amount = 100, splitBetween = Some [''A'', ''B'']\<rparr>]
     [''A'', ''B''] = [(''A'', 50), (''B'', - 50)]"
    by (simp add: calculateNetBalances_def init_balances_def process_expense_def
          involvedIds_def credit_def debit_def)
  then show ?thesis
    by (simp add: map_of_calculateNetBalances net_effect_def)
qed

text \<open>The formula at the example of the specification, for \<open>A\<close>: \<open>100 - 100 / 2\<close>.\<close>

theorem calculateNetBalances_per_transaction_witness:
  "''A'' \<in> set [''A'', ''B''] \<and>
   count_list (spec_involved \<lparr>paidBy = ''A'', amount = 100, splitBetween = Some [''A'', ''B'']\<rparr>
     [''A'', ''B'']) ''A'' = 1 \<and>
   map_of (calculateNetBalances [\<lparr>paidBy = ''A'', amount = 100, splitBetween = Some [''A'', ''B'']\<rparr>]
     [''A'', ''B'']) ''A'' = Some 50"
  using calculateNetBalances_per_transaction
    [of "[\<lparr>paidBy = ''A'', amount = 100, splitBetween = Some [''A'', ''B'']\<rparr>]" "[''A'', ''B'']" "''A''"
        "\<lparr>paidBy = ''A'', amount = 100, splitBetween = Some [''A'', ''B'']\<rparr>"]
  by (simp add: spec_involved_def net_effect_def)

text \<open>The claim as stated, for every transaction, fails when the payer is not on the
  roster. With roster \<open>A, B\<close>, let \<open>C\<close> pay 60 for \<open>A\<close>, \<open>B\<close> and \<open>C\<close>: the share is 20, and the
  claim credits \<open>C\<close> with the amount less the own share, 40. The code debits \<open>A\<close> and \<open>B\<close> and
  skips both the credit and the debit of \<open>C\<close>, who has no balance in the result.\<close>

theorem calculateNetBalances_per_transaction_counterexample:
  "calculateNetBalances [\<lparr>paidBy = ''C'', amount = 60, splitBetween = Some [''A'', ''B'', ''C'']\<rparr>]
     [''A'', ''B''] = [(''A'', - 20), (''B'', - 20)] \<and>
   net_effect [''A'', ''B'']
     \<lparr>paidBy = ''C'', amount = 60, splitBetween = Some [''A'', ''B'', ''C'']\<rparr> ''C'' = 40 \<and>
   map_of (calculateNetBalances
     [\<lparr>paidBy = ''C'', amount = 60, splitBetween = Some [''A'', ''B'', ''C'']\<rparr>] [''A'', ''B'']) ''C''
     = None \<and>
   balance_of (calculateNetBalances
     [\<lparr>paidBy = ''C'', amount = 60, splitBetween = Some [''A'', ''B'', ''C'']\<rparr>] [''A'', ''B'']) ''C''
     \<noteq> net_effect [''A'', ''B'']
         \<lparr>paidBy = ''C'', amount = 60, splitBetween = Some [''A'', ''B'', ''C'']\<rparr> ''C''"
proof -
  have "calculateNetBalances
     [\<lparr>paidBy = ''C'', amount = 60, splitBetween = Some [''A'', ''B'', ''C'']\<rparr>]
     [''A'', ''B''] = [(''A'', - 20), (''B'', - 20)]"
    by (simp add: calculateNetBalances_def init_balances_def process_expense_def
          involvedIds_def credit_def debit_def)
  then show ?thesis
    by (simp add: net_effect_def spec_involved_def balance_of_def)
qed

text \<open>C2, as amended: when every payer and every named beneficiary is on the roster, the
  balances that \<^verbatim>\<open>calculateNetBalances\<close> returns sum to zero (exactly, numbers being exact
  here, and so within any tolerance): each transaction credits its amount once and
  debits \<open>|involved|\<close> shares of \<open>amount / |involved|\<close>.\<close>

theorem calculateNetBalances_conserves:
  "list_all (on_roster roster) es \<Longrightarrow> sum_list (map snd (calculateNetBalances es roster)) = 0"
  by (rule sum_calculateNetBalances)

theorem calculateNetBalances_conserves_witness:
  "list_all (on_roster [''A'', ''B'', ''C''])
     [\<lparr>paidBy = ''A'', amount = 300, splitBetween = Some []\<rparr>,
      \<lparr>paidBy = ''B'', amount = 100, splitBetween = Some [''A'', ''C'']\<rparr>,
      \<lparr>paidBy = ''C'', amount = 10, splitBetween = None\<rparr>] \<and>
   sum_list (map snd (calculateNetBalances
     [\<lparr>paidBy = ''A'', amount = 300, splitBetween = Some []\<rparr>,
      \<lparr>paidBy = ''B'', amount = 100, splitBetween = Some [''A'', ''C'']\<rparr>,
      \<lparr>paidBy = ''C'', amount = 10, splitBetween = None\<rparr>] [''A'', ''B'', ''C''])) = 0"
proof -
  have h: "list_all (on_roster [''A'', ''B'', ''C''])
     [\<lparr>paidBy = ''A'', amount = 300, splitBetween = Some []\<rparr>,
      \<lparr>paidBy = ''B'', amount = 100, splitBetween = Some [''A'', ''C'']\<rparr>,
      \<lparr>paidBy = ''C'', amount = 10, splitBetween = None\<rparr>]"
    by (simp add: on_roster_def)
  from h calculateNetBalances_conserves[OF h] show ?thesis by simp
qed

text \<open>The claim as stated, for every transaction list, fails: with roster \<open>A, B\<close> and a payer
  \<open>D\<close> who is not on it, 100 split over the roster leaves \<open>A: -50, B: -50\<close>.\<close>

theorem calculateNetBalances_conserves_counterexample:
  "\<not> \<bar>sum_list (map snd (calculateNetBalances
        [\<lparr>paidBy = ''D'', amount = 100, splitBetween = Some []\<rparr>] [''A'', ''B'']))\<bar> \<le> 0.01"
  by (simp add: calculateNetBalances_def init_balances_def process_expense_def
        involvedIds_def credit_def debit_def)

subsection \<open>simplifyDebts: what an iteration keeps and what it adds\<close>

lemma loop_body_members:
  assumes "loop_cond s"
  shows "map member (givers (loop_body s)) = map member (givers s)"
    and "map member (receivers (loop_body s)) = map member (receivers s)"
  using assms
  by (simp_all add: loop_body_def Let_def loop_cond_def map_update list_update_same_conv)

lemma loop_body_results:
  "results (loop_body s) = results s \<or>
   results (loop_body s) = results s @
     [\<lparr>from = member (givers s ! giverIdx s), to = member (receivers s ! receiverIdx s),
       amount = toFixed2 (min \<bar>entry.amount (givers s ! giverIdx s)\<bar>
                              (entry.amount (receivers s ! receiverIdx s)))\<rparr>]"
  by (simp add: loop_body_def Let_def)

lemma loop_body_netBalances [simp]: "netBalances (loop_body s) = netBalances s"
  by (simp add: loop_body_def Let_def)

lemma init_members:
  "member ` set (givers (init_state nb)) = fst ` set (debtors_of nb)"
  "member ` set (receivers (init_state nb)) = fst ` set (creditors_of nb)"
  by (force simp: init_state_simps separate_eq sort_givers_def sort_receivers_def
        debtors_of_def creditors_of_def spec_eps_def image_iff)+

lemma init_lengths:
  "length (givers (init_state nb)) = length (debtors_of nb)"
  "length (receivers (init_state nb)) = length (creditors_of nb)"
  by (simp_all add: init_state_simps separate_eq sort_givers_def sort_receivers_def
        debtors_of_def creditors_of_def spec_eps_def)

lemma debtors_creditors_disjoint:
  assumes "distinct (map fst nb)"
  shows "fst ` set (debtors_of nb) \<inter> fst ` set (creditors_of nb) = {}"
proof -
  have "False" if "(p, a) \<in> set nb" "a < - 0.01" "(p, b) \<in> set nb" "b > 0.01" for p a b
  proof -
    from assms that(1,3) have "a = b" by (meson eq_key_imp_eq_value)
    with that show False by simp
  qed
  then show ?thesis
    by (auto simp: debtors_of_def creditors_of_def spec_eps_def)
qed


lemma results_endpoints:
  "\<exists>t. match_loop (init_state nb) = Some t \<and> \<not> loop_cond t \<and>
       (\<forall>e\<in>set (results t). from e \<in> fst ` set (debtors_of nb) \<and> to e \<in> fst ` set (creditors_of nb))"
proof -
  let ?G = "fst ` set (debtors_of nb)" and ?R = "fst ` set (creditors_of nb)"
  define I where "I s \<longleftrightarrow> member ` set (givers s) = ?G \<and> member ` set (receivers s) = ?R \<and>
      (\<forall>e\<in>set (results s). from e \<in> ?G \<and> to e \<in> ?R)" for s :: state
  have "\<exists>t. match_loop (init_state nb) = Some t \<and> loop_inv t \<and> I t \<and> \<not> loop_cond t"
  proof (rule match_loop_rule)
    show "loop_inv (init_state nb)" by (rule loop_inv_init)
    show "I (init_state nb)" by (simp add: I_def init_members) (simp add: init_state_simps)
  next
    fix t assume t: "loop_inv t" "I t" "loop_cond t"
    from t(3) have "givers t ! giverIdx t \<in> set (givers t)"
      and "receivers t ! receiverIdx t \<in> set (receivers t)"
      by (simp_all add: loop_cond_def)
    then have "member (givers t ! giverIdx t) \<in> member ` set (givers t)"
      and "member (receivers t ! receiverIdx t) \<in> member ` set (receivers t)"
      by blast+
    with t(2) have gm: "member (givers t ! giverIdx t) \<in> ?G"
      and rm: "member (receivers t ! receiverIdx t) \<in> ?R"
      unfolding I_def by simp_all
    have "member ` set (givers (loop_body t)) = member ` set (givers t)"
      and "member ` set (receivers (loop_body t)) = member ` set (receivers t)"
      using loop_body_members[OF t(3)] by (metis set_map)+
    with t(2) have m: "member ` set (givers (loop_body t)) = ?G"
      "member ` set (receivers (loop_body t)) = ?R"
      unfolding I_def by simp_all
    from t(2) have old: "\<forall>e\<in>set (results t). from e \<in> ?G \<and> to e \<in> ?R"
      unfolding I_def by simp
    have "\<forall>e\<in>set (results (loop_body t)). from e \<in> ?G \<and> to e \<in> ?R"
      using loop_body_results[of t]
    proof
      assume "results (loop_body t) = results t"
      with old show ?thesis by simp
    next
      assume "results (loop_body t) = results t @
        [\<lparr>from = member (givers t ! giverIdx t), to = member (receivers t ! receiverIdx t),
          amount = toFixed2 (min \<bar>entry.amount (givers t ! giverIdx t)\<bar>
                              (entry.amount (receivers t ! receiverIdx t)))\<rparr>]"
      with old gm rm show ?thesis by simp
    qed
    with m show "I (loop_body t)" unfolding I_def by simp
  qed
  then show ?thesis by (auto simp: I_def)
qed

lemma results_count:
  assumes "loop_cond (init_state nb)"
  shows "\<exists>t. match_loop (init_state nb) = Some t \<and>
           length (results t) + 1 \<le> remaining (init_state nb)"
proof -
  define N where "N = remaining (init_state nb)"
  define I where "I s \<longleftrightarrow> length (results s) + (if loop_cond s then remaining s else 1) \<le> N"
    for s :: state
  have "\<exists>t. match_loop (init_state nb) = Some t \<and> loop_inv t \<and> I t \<and> \<not> loop_cond t"
  proof (rule match_loop_rule[where I = I])
    show "loop_inv (init_state nb)" by (rule loop_inv_init)
    show "I (init_state nb)"
      unfolding I_def N_def using assms by (simp add: init_state_simps)
  next
    fix t assume t: "loop_inv t" "I t" "loop_cond t"
    have r: "length (results (loop_body t)) \<le> length (results t) + 1"
      using loop_body_results[of t] by auto
    have d: "remaining (loop_body t) < remaining t"
      by (rule loop_inv_step(2)[OF t(1,3)])
    from t(3) have two: "2 \<le> remaining t"
      unfolding loop_cond_def remaining_def by arith
    from t(2,3) have old: "length (results t) + remaining t \<le> N"
      unfolding I_def by simp
    show "I (loop_body t)"
    proof (cases "loop_cond (loop_body t)")
      case True
      from r d old have "length (results (loop_body t)) + remaining (loop_body t) \<le> N"
        by linarith
      with True show ?thesis unfolding I_def by simp
    next
      case False
      from r two old have "length (results (loop_body t)) + 1 \<le> N"
        by linarith
      with False show ?thesis unfolding I_def by simp
    qed
  qed
  then obtain t where "match_loop (init_state nb) = Some t" "I t" "\<not> loop_cond t"
    by blast
  then show ?thesis unfolding I_def N_def by auto
qed

lemma results_none:
  assumes "\<not> loop_cond (init_state nb)"
  shows "match_loop (init_state nb) = Some (init_state nb)"
  using assms by (subst match_loop.simps) simp

lemma netBalances_kept:
  "\<exists>t. match_loop (init_state nb) = Some t \<and> netBalances t = nb"
proof -
  have "\<exists>t. match_loop (init_state nb) = Some t \<and> loop_inv t \<and> netBalances t = nb \<and> \<not> loop_cond t"
    by (rule match_loop_rule[where I = "\<lambda>s. netBalances s = nb"])
       (simp_all add: loop_inv_init init_state_simps)
  then show ?thesis by blast
qed

subsection \<open>simplifyDebts: the claims on its edges\<close>

text \<open>C8: a JavaScript object has each key once, so the entries of a balance map have
  distinct keys; then \<^verbatim>\<open>simplifyDebts\<close> returns, and no edge it returns has \<open>from = to\<close>, because
  \<open>from\<close> is always a debtor (balance below \<open>-0.01\<close>) and \<open>to\<close> a creditor (above \<open>0.01\<close>).\<close>

theorem simplifyDebts_no_self_edge:
  assumes "distinct (map fst nb)"
  shows "\<exists>es. simplifyDebts nb = Some es \<and> list_all (\<lambda>e. from e \<noteq> to e) es"
proof -
  from results_endpoints[of nb] obtain t where t: "match_loop (init_state nb) = Some t"
    "\<forall>e\<in>set (results t). from e \<in> fst ` set (debtors_of nb) \<and> to e \<in> fst ` set (creditors_of nb)"
    by blast
  have "from e \<noteq> to e" if "e \<in> set (results t)" for e
  proof -
    from t(2) that
    have a: "from e \<in> fst ` set (debtors_of nb) \<and> to e \<in> fst ` set (creditors_of nb)"
      by (rule bspec)
    show ?thesis
    proof
      assume "from e = to e"
      with a have "to e \<in> fst ` set (debtors_of nb) \<inter> fst ` set (creditors_of nb)"
        by simp
      with debtors_creditors_disjoint[OF assms] show False
        by simp
    qed
  qed
  then have "list_all (\<lambda>e. from e \<noteq> to e) (results t)"
    unfolding list_all_iff by (rule ballI)
  with t(1) show ?thesis
    by (simp add: simplifyDebts_def simplifyDebts_run_def)
qed

theorem simplifyDebts_no_self_edge_witness:
  "distinct (map fst [(''A'', 200 :: real), (''B'', - 100), (''C'', - 100)]) \<and>
   simplifyDebts [(''A'', 200), (''B'', - 100), (''C'', - 100)] =
     Some [\<lparr>from = ''B'', to = ''A'', amount = 100\<rparr>, \<lparr>from = ''C'', to = ''A'', amount = 100\<rparr>] \<and>
   list_all (\<lambda>e. from e \<noteq> to e)
     [\<lparr>from = ''B'', to = ''A'', amount = 100\<rparr>, \<lparr>from = ''C'', to = ''A'', amount = 100\<rparr>]"
proof -
  have d: "distinct (map fst [(''A'', 200 :: real), (''B'', - 100), (''C'', - 100)])"
    by simp
  have v: "simplifyDebts [(''A'', 200), (''B'', - 100), (''C'', - 100)] =
     Some [\<lparr>from = ''B'', to = ''A'', amount = 100\<rparr>, \<lparr>from = ''C'', to = ''A'', amount = 100\<rparr>]"
    by code_simp
  from simplifyDebts_no_self_edge[OF d] d v show ?thesis by auto
qed

text \<open>C7, as amended: \<^verbatim>\<open>simplifyDebts\<close> returns no edge when there is no debtor or no creditor,
  and otherwise at most \<open>debtors + creditors - 1\<close> edges, debtors and creditors being the
  entries below \<open>-0.01\<close> and above \<open>0.01\<close>.\<close>

theorem simplifyDebts_edge_count:
  "\<exists>es. simplifyDebts nb = Some es \<and>
     (if debtors_of nb = [] \<or> creditors_of nb = [] then es = []
      else int (length es) \<le> int (length (debtors_of nb)) + int (length (creditors_of nb)) - 1)"
proof -
  have c: "loop_cond (init_state nb) \<longleftrightarrow> debtors_of nb \<noteq> [] \<and> creditors_of nb \<noteq> []"
    by (simp add: loop_cond_def init_lengths) (simp add: init_state_simps)
  have r: "remaining (init_state nb) = length (debtors_of nb) + length (creditors_of nb)"
    by (simp add: remaining_def init_lengths) (simp add: init_state_simps)
  show ?thesis
  proof (cases "loop_cond (init_state nb)")
    case False
    from results_none[OF False] have "simplifyDebts nb = Some []"
      by (simp add: simplifyDebts_def simplifyDebts_run_def init_state_simps)
    with False c show ?thesis by auto
  next
    case True
    from results_count[OF True] obtain t where t: "match_loop (init_state nb) = Some t"
      "length (results t) + 1 \<le> length (debtors_of nb) + length (creditors_of nb)"
      unfolding r by blast
    from t(2) have "int (length (results t))
        \<le> int (length (debtors_of nb)) + int (length (creditors_of nb)) - 1"
      by linarith
    moreover from t(1) have "simplifyDebts nb = Some (results t)"
      by (simp add: simplifyDebts_def simplifyDebts_run_def)
    ultimately show ?thesis using True c by auto
  qed
qed

theorem simplifyDebts_edge_count_witness:
  "debtors_of [(''A'', 200), (''B'', - 100), (''C'', - 100)] \<noteq> [] \<and>
   creditors_of [(''A'', 200), (''B'', - 100), (''C'', - 100)] \<noteq> [] \<and>
   (\<exists>es. simplifyDebts [(''A'', 200), (''B'', - 100), (''C'', - 100)] = Some es \<and>
      int (length es) \<le> 2)"
proof -
  have d: "debtors_of [(''A'', 200), (''B'', - 100), (''C'', - 100)] = [(''B'', - 100), (''C'', - 100)]"
    and c: "creditors_of [(''A'', 200), (''B'', - 100), (''C'', - 100)] = [(''A'', 200)]"
    by (simp_all add: debtors_of_def creditors_of_def spec_eps_def)
  from simplifyDebts_edge_count[of "[(''A'', 200), (''B'', - 100), (''C'', - 100)]"]
  show ?thesis unfolding d c by simp
qed

text \<open>The bound as stated fails where there is neither a debtor nor a creditor: for the
  all-zero map of two participants no edge is returned, and \<open>0 \<le> 0 + 0 - 1\<close> is false.\<close>

theorem simplifyDebts_edge_count_counterexample:
  "simplifyDebts [(''A'', 0), (''B'', 0)] = Some [] \<and>
   \<not> int (length ([] :: edge list))
       \<le> int (length (debtors_of [(''A'', 0), (''B'', 0)]))
         + int (length (creditors_of [(''A'', 0), (''B'', 0)])) - 1"
proof -
  have "simplifyDebts [(''A'', 0), (''B'', 0)] = Some []"
    by code_simp
  then show ?thesis
    by (simp add: debtors_of_def creditors_of_def spec_eps_def)
qed

text \<open>C6: a call of \<^verbatim>\<open>simplifyDebts\<close> returns, leaves its argument object as it was (it only
  reads it: the objects it updates are its own copies), and a second call on that object
  returns the same list of edges.\<close>

theorem simplifyDebts_deterministic_pure:
  "\<exists>t. simplifyDebts_run nb = Some t \<and> netBalances t = nb \<and>
       simplifyDebts nb = Some (results t) \<and>
       simplifyDebts (netBalances t) = Some (results t)"
proof -
  from netBalances_kept[of nb] obtain t where "match_loop (init_state nb) = Some t"
    "netBalances t = nb" by blast
  then show ?thesis
    by (simp add: simplifyDebts_def simplifyDebts_run_def)
qed

theorem simplifyDebts_deterministic_pure_witness:
  "\<exists>t. simplifyDebts_run [(''A'', 200), (''B'', - 100), (''C'', - 100)] = Some t \<and>
       netBalances t = [(''A'', 200), (''B'', - 100), (''C'', - 100)] \<and>
       results t =
         [\<lparr>from = ''B'', to = ''A'', amount = 100\<rparr>, \<lparr>from = ''C'', to = ''A'', amount = 100\<rparr>]"
proof -
  have v: "simplifyDebts [(''A'', 200), (''B'', - 100), (''C'', - 100)] =
     Some [\<lparr>from = ''B'', to = ''A'', amount = 100\<rparr>, \<lparr>from = ''C'', to = ''A'', amount = 100\<rparr>]"
    by code_simp
  from simplifyDebts_deterministic_pure[of "[(''A'', 200), (''B'', - 100), (''C'', - 100)]"] v
  show ?thesis by auto
qed

subsection \<open>Invalid input\<close>

lemma calculateNetBalances_empty_roster: "calculateNetBalances es [] = []"
proof -
  have "map fst (calculateNetBalances es []) = []"
    by (simp add: calculateNetBalances_keys init_balances_def)
  then show ?thesis by simp
qed

lemma simplifyDebts_returns: "\<exists>edges. simplifyDebts nb = Some edges"
  using netBalances_kept[of nb] by (auto simp: simplifyDebts_def simplifyDebts_run_def)

text \<open>C5, as amended: the engine validates nothing, and on invalid input it computes a
  result from the data it is given. With an empty roster \<^verbatim>\<open>calculateNetBalances\<close> returns the
  empty map whatever the transactions. Every transaction, whatever the sign of its amount
  (zero and negative included), is netted by the one rule: it changes the balance of each
  participant who has an entry by the amount if that participant paid, less one share per
  listing among the involved, and adds no entry. And for every map of (finite) balances,
  whether or not they sum to zero, \<^verbatim>\<open>simplifyDebts\<close> returns a list of edges.\<close>

theorem invalid_input_is_processed:
  "calculateNetBalances es [] = [] \<and>
   map_of (process_expense roster b e) p =
     map_option (\<lambda>v. v + net_effect roster e p) (map_of b p) \<and>
   (\<exists>edges. simplifyDebts nb = Some edges)"
  using calculateNetBalances_empty_roster[of es] simplifyDebts_returns[of nb]
  by (simp add: map_of_process_expense)

text \<open>An empty roster; a transaction of \<open>-100\<close> by \<open>A\<close> for \<open>A\<close> and \<open>B\<close> on the balances
  \<open>A: 0, B: 0\<close>, where \<open>A\<close> goes to \<open>-100 + 50\<close>; and balances that sum to 70.\<close>

theorem invalid_input_is_processed_witness:
  "calculateNetBalances [\<lparr>paidBy = ''A'', amount = 100, splitBetween = None\<rparr>] [] = [] \<and>
   map_of (process_expense [''A'', ''B''] [(''A'', 0), (''B'', 0)]
     \<lparr>paidBy = ''A'', amount = - 100, splitBetween = Some [''A'', ''B'']\<rparr>) ''A'' = Some (- 50) \<and>
   (\<exists>edges. simplifyDebts [(''A'', 100), (''B'', - 30)] = Some edges)"
  using invalid_input_is_processed
    [of "[\<lparr>paidBy = ''A'', amount = 100, splitBetween = None\<rparr>]" "[''A'', ''B'']"
        "[(''A'', 0), (''B'', 0)]"
        "\<lparr>paidBy = ''A'', amount = - 100, splitBetween = Some [''A'', ''B'']\<rparr>" "''A''"
        "[(''A'', 100), (''B'', - 30)]"]
  by (simp add: net_effect_def spec_involved_def)

text \<open>The claim as stated fails on each kind of invalid input: an empty roster gives the
  empty map, a negative amount gives the mirrored balances, and a map whose balances sum
  to 70 gives a plan that settles 30 of it.\<close>

theorem invalid_input_is_processed_counterexample:
  "calculateNetBalances [\<lparr>paidBy = ''A'', amount = 100, splitBetween = Some []\<rparr>] [] = [] \<and>
   calculateNetBalances [\<lparr>paidBy = ''A'', amount = - 100, splitBetween = Some [''A'', ''B'']\<rparr>]
     [''A'', ''B''] = [(''A'', - 50), (''B'', 50)] \<and>
   simplifyDebts [(''A'', 100), (''B'', - 30)] = Some [\<lparr>from = ''B'', to = ''A'', amount = 30\<rparr>]"
proof -
  have "calculateNetBalances [\<lparr>paidBy = ''A'', amount = 100, splitBetween = Some []\<rparr>] [] = []"
    by (simp add: calculateNetBalances_def init_balances_def process_expense_def
          involvedIds_def credit_def debit_def)
  moreover have "calculateNetBalances
     [\<lparr>paidBy = ''A'', amount = - 100, splitBetween = Some [''A'', ''B'']\<rparr>]
     [''A'', ''B''] = [(''A'', - 50), (''B'', 50)]"
    by (simp add: calculateNetBalances_def init_balances_def process_expense_def
          involvedIds_def credit_def debit_def)
  moreover have "simplifyDebts [(''A'', 100), (''B'', - 30)] =
      Some [\<lparr>from = ''B'', to = ''A'', amount = 30\<rparr>]"
    by code_simp
  ultimately show ?thesis by simp
qed

subsection \<open>The code against the specification's algorithm\<close>

lemma insort_key_map:
  "insort_key f (g x) (map g xs) = map g (insort_key (\<lambda>y. f (g y)) x xs)"
  by (induction xs) simp_all

lemma sort_key_map:
  "sort_key f (map g xs) = map g (sort_key (\<lambda>y. f (g y)) xs)"
  by (induction xs) (simp_all add: insort_key_map)

lemma init_givers_spec: "map entry_pair (givers (init_state nb)) = spec_debtors nb"
proof -
  have "map entry_pair (sort_key entry.amount (map (\<lambda>(m, a). \<lparr>member = m, amount = a\<rparr>) xs)) =
        sort_key (\<lambda>(p, b). b) xs" for xs :: balances
    by (simp add: sort_key_map entry_pair_def case_prod_unfold o_def)
  then show ?thesis
    by (simp add: init_state_simps separate_eq sort_givers_def spec_debtors_def
          debtors_of_def spec_eps_def)
qed

lemma init_receivers_spec: "map entry_pair (receivers (init_state nb)) = spec_creditors nb"
proof -
  have "map entry_pair (sort_key (\<lambda>e. - entry.amount e)
          (map (\<lambda>(m, a). \<lparr>member = m, amount = a\<rparr>) xs)) =
        sort_key (\<lambda>(p, b). - b) xs" for xs :: balances
    by (simp add: sort_key_map entry_pair_def case_prod_unfold o_def)
  then show ?thesis
    by (simp add: init_state_simps separate_eq sort_receivers_def spec_creditors_def
          creditors_of_def spec_eps_def)
qed

lemma toFixed2_spec: "0 \<le> x \<Longrightarrow> toFixed2 x = spec_round2 x"
  by (simp add: toFixed2_def spec_round2_def round_def)


lemma spec_match_Nil [simp]:
  "spec_match passed [] cs = Some []" "spec_match passed ds [] = Some []"
  by (subst spec_match.simps, simp split: list.splits prod.splits)+

lemma spec_match_Cons:
  "spec_match passed ((d, db) # ds) ((c, cb) # cs) =
     Option.bind
       (spec_match passed
          (if passed (db + min \<bar>db\<bar> cb) then ds else (d, db + min \<bar>db\<bar> cb) # ds)
          (if passed (cb - min \<bar>db\<bar> cb) then cs else (c, cb - min \<bar>db\<bar> cb) # cs))
       (\<lambda>rest. Some ((if min \<bar>db\<bar> cb > spec_eps
                          then [\<lparr>from = d, to = c, amount = spec_round2 (min \<bar>db\<bar> cb)\<rparr>]
                          else []) @ rest))"
  by (subst spec_match.simps) (simp add: Let_def)

lemma drop_update_here:
  "i < length xs \<Longrightarrow> drop i (xs[i := x]) = x # drop (Suc i) xs"
  by (simp add: drop_update_swap flip: Cons_nth_drop_Suc)

lemma loop_body_unfold:
  assumes "loop_inv s" "loop_cond s"
  defines "g \<equiv> givers s ! giverIdx s" and "r \<equiv> receivers s ! receiverIdx s"
  defines "amt \<equiv> min \<bar>entry.amount g\<bar> (entry.amount r)"
  shows "map entry_pair (drop (giverIdx (loop_body s)) (givers (loop_body s))) =
           (if strictly_within_eps (entry.amount g + amt)
            then map entry_pair (drop (Suc (giverIdx s)) (givers s))
            else (member g, entry.amount g + amt) # map entry_pair (drop (Suc (giverIdx s)) (givers s)))"
    and "map entry_pair (drop (receiverIdx (loop_body s)) (receivers (loop_body s))) =
           (if strictly_within_eps (entry.amount r - amt)
            then map entry_pair (drop (Suc (receiverIdx s)) (receivers s))
            else (member r, entry.amount r - amt) # map entry_pair (drop (Suc (receiverIdx s)) (receivers s)))"
    and "results (loop_body s) = results s @
           (if amt > spec_eps then [\<lparr>from = member g, to = member r, amount = spec_round2 amt\<rparr>] else [])"
proof -
  from assms(2) have gi: "giverIdx s < length (givers s)"
    and ri: "receiverIdx s < length (receivers s)"
    by (simp_all add: loop_cond_def)
  note h = loop_inv_heads[OF assms(1,2), folded g_def r_def]
  from h have nonneg: "0 \<le> entry.amount r - amt" and pos: "0 \<le> amt"
    by (simp_all add: amt_def min_def)
  show "map entry_pair (drop (giverIdx (loop_body s)) (givers (loop_body s))) =
           (if strictly_within_eps (entry.amount g + amt)
            then map entry_pair (drop (Suc (giverIdx s)) (givers s))
            else (member g, entry.amount g + amt) # map entry_pair (drop (Suc (giverIdx s)) (givers s)))"
  proof -
    have "giverIdx (loop_body s) =
            (if \<bar>entry.amount g + amt\<bar> < 0.01 then Suc (giverIdx s) else giverIdx s)"
      and "givers (loop_body s) =
            (givers s)[giverIdx s := g\<lparr>entry.amount := entry.amount g + amt\<rparr>]"
      unfolding loop_body_def Let_def g_def r_def amt_def by (auto simp: min_def)
    then show ?thesis
      using gi by (simp add: drop_update_here entry_pair_def spec_eps_def strictly_within_eps_def)
  qed
  show "map entry_pair (drop (receiverIdx (loop_body s)) (receivers (loop_body s))) =
           (if strictly_within_eps (entry.amount r - amt)
            then map entry_pair (drop (Suc (receiverIdx s)) (receivers s))
            else (member r, entry.amount r - amt) # map entry_pair (drop (Suc (receiverIdx s)) (receivers s)))"
  proof -
    have "receiverIdx (loop_body s) =
            (if entry.amount r - amt < 0.01 then Suc (receiverIdx s) else receiverIdx s)"
      and "receivers (loop_body s) =
            (receivers s)[receiverIdx s := r\<lparr>entry.amount := entry.amount r - amt\<rparr>]"
      unfolding loop_body_def Let_def g_def r_def amt_def by (auto simp: min_def)
    moreover from nonneg
    have "entry.amount r - amt < 0.01 \<longleftrightarrow> strictly_within_eps (entry.amount r - amt)"
      by (simp add: spec_eps_def strictly_within_eps_def)
    ultimately show ?thesis
      using ri by (simp add: drop_update_here entry_pair_def)
  qed
  show "results (loop_body s) = results s @
           (if amt > spec_eps then [\<lparr>from = member g, to = member r, amount = spec_round2 amt\<rparr>] else [])"
  proof -
    have "results (loop_body s) = results s @
           (if amt > 0.01 then [\<lparr>from = member g, to = member r, amount = toFixed2 amt\<rparr>] else [])"
      unfolding loop_body_def Let_def g_def r_def amt_def by (auto simp: min_def)
    with pos show ?thesis
      by (simp add: toFixed2_spec spec_eps_def)
  qed
qed

lemma match_loop_refines:
  assumes "loop_inv s"
  shows "\<exists>t es. match_loop s = Some t \<and>
           spec_match strictly_within_eps (map entry_pair (drop (giverIdx s) (givers s)))
                      (map entry_pair (drop (receiverIdx s) (receivers s))) = Some es \<and>
           results t = results s @ es"
  using assms
proof (induction "remaining s" arbitrary: s rule: less_induct)
  case less
  show ?case
  proof (cases "loop_cond s")
    case False
    with less.prems have "drop (giverIdx s) (givers s) = [] \<or> drop (receiverIdx s) (receivers s) = []"
      by (auto simp: loop_cond_def loop_inv_def)
    then have "spec_match strictly_within_eps (map entry_pair (drop (giverIdx s) (givers s)))
                      (map entry_pair (drop (receiverIdx s) (receivers s))) = Some []"
      by auto
    moreover from False have "match_loop s = Some s"
      by (subst match_loop.simps) simp
    ultimately show ?thesis by simp
  next
    case True
    let ?g = "givers s ! giverIdx s" and ?r = "receivers s ! receiverIdx s"
    note st = loop_inv_step[OF less.prems True]
    note un = loop_body_unfold[OF less.prems True]
    from less.hyps[OF st(2) st(1)] obtain t es where t: "match_loop (loop_body s) = Some t"
      "spec_match strictly_within_eps (map entry_pair (drop (giverIdx (loop_body s)) (givers (loop_body s))))
                  (map entry_pair (drop (receiverIdx (loop_body s)) (receivers (loop_body s)))) = Some es"
      "results t = results (loop_body s) @ es"
      by blast
    from True have dg: "drop (giverIdx s) (givers s) = ?g # drop (Suc (giverIdx s)) (givers s)"
      and dr: "drop (receiverIdx s) (receivers s) = ?r # drop (Suc (receiverIdx s)) (receivers s)"
      by (simp_all add: loop_cond_def Cons_nth_drop_Suc)
    have "spec_match strictly_within_eps (map entry_pair (drop (giverIdx s) (givers s)))
                      (map entry_pair (drop (receiverIdx s) (receivers s))) =
          Some ((if min \<bar>entry.amount ?g\<bar> (entry.amount ?r) > spec_eps
                 then [\<lparr>from = member ?g, to = member ?r,
                         amount = spec_round2 (min \<bar>entry.amount ?g\<bar> (entry.amount ?r))\<rparr>]
                 else []) @ es)"
      unfolding dg dr list.map entry_pair_def[of ?g] entry_pair_def[of ?r] spec_match_Cons
      using t(2) unfolding un(1,2) by simp
    moreover from True t(1) have "match_loop s = Some t"
      by (subst match_loop.simps) simp
    moreover have "results t = results s @
          (if min \<bar>entry.amount ?g\<bar> (entry.amount ?r) > spec_eps
                 then [\<lparr>from = member ?g, to = member ?r,
                         amount = spec_round2 (min \<bar>entry.amount ?g\<bar> (entry.amount ?r))\<rparr>]
                 else []) @ es"
      unfolding t(3) un(3) by simp
    ultimately show ?thesis by blast
  qed
qed

text \<open>C3, as amended: \<^verbatim>\<open>simplifyDebts\<close> returns, and what it returns is the plan of the
  algorithm of the specification with the passing test read strictly: debtors are the
  entries below \<open>-0.01\<close> and creditors those above \<open>0.01\<close> (an entry with \<open>\<bar>b\<bar> \<le> 0.01\<close> is in
  neither list), sorted stably, debtors ascending and creditors descending; the heads
  settle \<open>min \<bar>debtor\<bar> creditor\<close>, an edge with that amount rounded to two decimals is
  emitted only if the amount exceeds \<open>0.01\<close>, both balances move by the amount, a
  participant is passed once the balance is strictly within \<open>0.01\<close> of zero
  (\<open>\<bar>b\<bar> < 0.01\<close>: a working balance of exactly \<open>0.01\<close> stays the head of its list), and the
  matching stops when a list is exhausted.\<close>

theorem simplifyDebts_follows_spec:
  "\<exists>es. simplifyDebts nb = Some es \<and> spec_simplifyDebts strictly_within_eps nb = Some es"
proof -
  from match_loop_refines[OF loop_inv_init[of nb]]
  obtain t es where "match_loop (init_state nb) = Some t"
    "spec_match strictly_within_eps
       (map entry_pair (drop (giverIdx (init_state nb)) (givers (init_state nb))))
       (map entry_pair (drop (receiverIdx (init_state nb)) (receivers (init_state nb)))) = Some es"
    "results t = results (init_state nb) @ es"
    by blast
  then have "simplifyDebts nb = Some es" "spec_simplifyDebts strictly_within_eps nb = Some es"
    by (simp_all add: simplifyDebts_def simplifyDebts_run_def spec_simplifyDebts_def
          init_givers_spec init_receivers_spec init_state_simps(3,4,5))
  then show ?thesis by blast
qed

text \<open>On these balances, which sum to zero, \<open>D\<close> keeps exactly \<open>0.01\<close> after \<open>A\<close> has paid and is
  not passed; the next iteration settles \<open>0.01\<close> between \<open>C\<close> and \<open>D\<close> without an edge, and \<open>E\<close>
  pays \<open>B\<close>.\<close>

theorem simplifyDebts_follows_spec_witness:
  "simplifyDebts
     [(''A'', - 0.014), (''B'', 0.014), (''C'', - 0.013), (''D'', 0.024), (''E'', - 0.011)] =
     Some [\<lparr>from = ''A'', to = ''D'', amount = 0.01\<rparr>, \<lparr>from = ''E'', to = ''B'', amount = 0.01\<rparr>] \<and>
   spec_simplifyDebts strictly_within_eps
     [(''A'', - 0.014), (''B'', 0.014), (''C'', - 0.013), (''D'', 0.024), (''E'', - 0.011)] =
     Some [\<lparr>from = ''A'', to = ''D'', amount = 0.01\<rparr>, \<lparr>from = ''E'', to = ''B'', amount = 0.01\<rparr>]"
proof -
  have "simplifyDebts
     [(''A'', - 0.014), (''B'', 0.014), (''C'', - 0.013), (''D'', 0.024), (''E'', - 0.011)] =
     Some [\<lparr>from = ''A'', to = ''D'', amount = 0.01\<rparr>, \<lparr>from = ''E'', to = ''B'', amount = 0.01\<rparr>]"
    by code_simp
  with simplifyDebts_follows_spec
    [of "[(''A'', - 0.014), (''B'', 0.014), (''C'', - 0.013), (''D'', 0.024), (''E'', - 0.011)]"]
  show ?thesis by auto
qed

text \<open>The claim as stated, with \<open>within \<epsilon> of zero\<close> read where a participant is passed as
  it is read in the partition, fails. On these balances, which sum to zero, \<open>A\<close> pays \<open>E\<close>
  and leaves \<open>E\<close> at exactly \<open>0.01\<close>. The code does not pass \<open>E\<close>: it settles \<open>0.01\<close> between \<open>B\<close>
  and \<open>E\<close> without an edge, passes both, and returns one edge. The algorithm as stated
  passes \<open>E\<close>, matches \<open>B\<close> with \<open>C\<close> and returns two.\<close>

theorem simplifyDebts_follows_spec_counterexample:
  "simplifyDebts
     [(''A'', - 0.013), (''B'', - 0.013), (''C'', 0.011), (''D'', - 0.008), (''E'', 0.023)] =
     Some [\<lparr>from = ''A'', to = ''E'', amount = 0.01\<rparr>] \<and>
   spec_simplifyDebts within_eps
     [(''A'', - 0.013), (''B'', - 0.013), (''C'', 0.011), (''D'', - 0.008), (''E'', 0.023)] =
     Some [\<lparr>from = ''A'', to = ''E'', amount = 0.01\<rparr>, \<lparr>from = ''B'', to = ''C'', amount = 0.01\<rparr>]"
proof -
  have "simplifyDebts
     [(''A'', - 0.013), (''B'', - 0.013), (''C'', 0.011), (''D'', - 0.008), (''E'', 0.023)] =
     Some [\<lparr>from = ''A'', to = ''E'', amount = 0.01\<rparr>]"
    by code_simp
  moreover have "spec_simplifyDebts within_eps
     [(''A'', - 0.013), (''B'', - 0.013), (''C'', 0.011), (''D'', - 0.008), (''E'', 0.023)] =
     Some [\<lparr>from = ''A'', to = ''E'', amount = 0.01\<rparr>, \<lparr>from = ''B'', to = ''C'', amount = 0.01\<rparr>]"
    by code_simp
  ultimately show ?thesis by blast
qed

subsection \<open>Applying a plan: what is paid and what is received\<close>

lemma paid_simps [simp]:
  "paid [] p = 0"
  "paid (e # es) p = (if from e = p then edge.amount e else 0) + paid es p"
  "paid (es @ fs) p = paid es p + paid fs p"
  by (simp_all add: paid_def)

lemma received_simps [simp]:
  "received [] p = 0"
  "received (e # es) p = (if to e = p then edge.amount e else 0) + received es p"
  "received (es @ fs) p = received es p + received fs p"
  by (simp_all add: received_def)

lemma apply_edge_at:
  "apply_edge bal e p =
     bal p + (if from e = p then edge.amount e else 0) - (if to e = p then edge.amount e else 0)"
  by (simp add: apply_edge_def Let_def)

lemma foldl_apply_edge:
  "foldl apply_edge bal es p = bal p + paid es p - received es p"
  by (induction es arbitrary: bal) (simp_all add: apply_edge_at)

lemma apply_edges_eq:
  "apply_edges nb es p = balance_of nb p + paid es p - received es p"
  by (simp add: apply_edges_def foldl_apply_edge)

lemma paid_none:
  "\<forall>e\<in>set es. from e \<noteq> p \<Longrightarrow> paid es p = 0"
  by (induction es) simp_all

lemma received_none:
  "\<forall>e\<in>set es. to e \<noteq> p \<Longrightarrow> received es p = 0"
  by (induction es) simp_all

subsection \<open>Sums of working balances\<close>

lemma sum_list_map_update:
  fixes f :: "'a \<Rightarrow> real"
  shows "i < length xs \<Longrightarrow>
    sum_list (map f (xs[i := x])) = sum_list (map f xs) - f (xs ! i) + f x"
proof (induction xs arbitrary: i)
  case Nil
  then show ?case by simp
next
  case (Cons y ys)
  then show ?case by (cases i) simp_all
qed

lemma sum_list_insort_key:
  fixes f :: "'a \<Rightarrow> real"
  shows "sum_list (map f (insort_key k x xs)) = f x + sum_list (map f xs)"
  by (induction xs) simp_all

lemma sum_list_sort_key:
  fixes f :: "'a \<Rightarrow> real"
  shows "sum_list (map f (sort_key k xs)) = sum_list (map f xs)"
  by (induction xs) (simp_all add: sum_list_insort_key)

subsection \<open>The fields of the state after one iteration\<close>

lemma loop_body_fields:
  "givers (loop_body s) = (givers s)[giverIdx s :=
      (givers s ! giverIdx s)\<lparr>entry.amount := entry.amount (givers s ! giverIdx s) + amountToSettle s\<rparr>]"
  "receivers (loop_body s) = (receivers s)[receiverIdx s :=
      (receivers s ! receiverIdx s)\<lparr>entry.amount := entry.amount (receivers s ! receiverIdx s) - amountToSettle s\<rparr>]"
  "giverIdx (loop_body s) =
      (if \<bar>entry.amount (givers s ! giverIdx s) + amountToSettle s\<bar> < 0.01
       then Suc (giverIdx s) else giverIdx s)"
  "receiverIdx (loop_body s) =
      (if entry.amount (receivers s ! receiverIdx s) - amountToSettle s < 0.01
       then Suc (receiverIdx s) else receiverIdx s)"
  "results (loop_body s) = results s @
      (if amountToSettle s > 0.01
       then [\<lparr>from = member (givers s ! giverIdx s), to = member (receivers s ! receiverIdx s),
              amount = toFixed2 (amountToSettle s)\<rparr>]
       else [])"
  unfolding loop_body_def Let_def amountToSettle_def by (auto simp: min_def)

subsection \<open>Balances in whole units\<close>

lemma multiple_of_iff:
  assumes "u \<noteq> 0"
  shows "multiple_of u b \<longleftrightarrow> (\<exists>k::int. b = of_int k * u)"
proof
  assume "multiple_of u b"
  then have "b = of_int \<lfloor>b / u\<rfloor> * u" by (simp add: multiple_of_def)
  then show "\<exists>k::int. b = of_int k * u" ..
next
  assume "\<exists>k::int. b = of_int k * u"
  then obtain k :: int where "b = of_int k * u" ..
  with assms show "multiple_of u b" by (simp add: multiple_of_def)
qed

lemma multiple_of_0 [simp]: "multiple_of u 0"
  by (simp add: multiple_of_def)

lemma multiple_of_add:
  assumes "u \<noteq> 0" "multiple_of u a" "multiple_of u b"
  shows "multiple_of u (a + b)"
proof -
  from assms obtain k l :: int where "a = of_int k * u" "b = of_int l * u"
    by (auto simp: multiple_of_iff)
  then have "a + b = of_int (k + l) * u" by (simp add: algebra_simps)
  with assms(1) show ?thesis unfolding multiple_of_iff[OF assms(1)] by blast
qed

lemma multiple_of_minus:
  assumes "u \<noteq> 0" "multiple_of u a"
  shows "multiple_of u (- a)"
proof -
  from assms obtain k :: int where "a = of_int k * u"
    by (auto simp: multiple_of_iff)
  then have "- a = of_int (- k) * u" by simp
  then show ?thesis unfolding multiple_of_iff[OF assms(1)] by blast
qed

lemma multiple_of_diff:
  assumes "u \<noteq> 0" "multiple_of u a" "multiple_of u b"
  shows "multiple_of u (a - b)"
  using multiple_of_add[OF assms(1,2) multiple_of_minus[OF assms(1,3)]] by simp

lemma multiple_of_small:
  assumes "0 < u" "multiple_of u a" "\<bar>a\<bar> < u"
  shows "a = 0"
proof -
  from assms obtain k :: int where k: "a = of_int k * u"
    by (auto simp: multiple_of_iff)
  with assms(1,3) have "\<bar>of_int k :: real\<bar> * u < 1 * u"
    by (simp add: abs_mult)
  with assms(1) have "\<bar>of_int k :: real\<bar> < 1"
    by (simp only: mult_less_cancel_right_pos)
  then have "k = 0" by linarith
  with k show ?thesis by simp
qed

lemma multiple_of_trans:
  assumes "v \<noteq> 0" "u \<noteq> 0" "multiple_of v u" "multiple_of u a"
  shows "multiple_of v a"
proof -
  from assms obtain k l :: int where "u = of_int k * v" "a = of_int l * u"
    by (auto simp: multiple_of_iff)
  then have "a = of_int (l * k) * v" by simp
  then show ?thesis unfolding multiple_of_iff[OF assms(1)] by blast
qed

lemma toFixed2_cents:
  assumes "multiple_of 0.01 a" "0 \<le> a"
  shows "toFixed2 a = a"
proof -
  from assms(1) obtain k :: int where k: "a = of_int k * 0.01"
    by (auto simp: multiple_of_iff)
  then have "a * 100 = of_int k" by simp
  then have "\<lfloor>a * 100 + 1 / 2\<rfloor> = k"
    by (simp add: floor_unique)
  with assms(2) k show ?thesis
    by (simp add: toFixed2_def)
qed

subsection \<open>Whole units: one iteration\<close>

lemma multiple_of_at_least:
  assumes "0 < u" "multiple_of u a" "0 < a"
  shows "u \<le> a"
proof (rule ccontr)
  assume "\<not> u \<le> a"
  with assms(3) have "\<bar>a\<bar> < u" by simp
  from multiple_of_small[OF assms(1,2) this] assms(3) show False by simp
qed

lemma units_step:
  assumes u: "0.01 < u" "multiple_of 0.01 u"
    and t: "loop_inv t" "loop_cond t"
    and gu: "list_all (\<lambda>e. multiple_of u (entry.amount e)) (givers t)"
    and ru: "list_all (\<lambda>e. multiple_of u (entry.amount e)) (receivers t)"
  shows "multiple_of u (amountToSettle t)"
    and "u \<le> amountToSettle t"
    and "amountToSettle t \<le> - entry.amount (givers t ! giverIdx t)"
    and "amountToSettle t \<le> entry.amount (receivers t ! receiverIdx t)"
    and "results (loop_body t) = results t @
      [\<lparr>from = member (givers t ! giverIdx t), to = member (receivers t ! receiverIdx t),
        amount = amountToSettle t\<rparr>]"
proof -
  let ?g = "entry.amount (givers t ! giverIdx t)" and ?r = "entry.amount (receivers t ! receiverIdx t)"
  from u(1) have u0: "0 < u" "u \<noteq> 0" by simp_all
  from t(2) have gi: "giverIdx t < length (givers t)" and ri: "receiverIdx t < length (receivers t)"
    by (simp_all add: loop_cond_def)
  note h = loop_inv_heads[OF t]
  from gu gi have mg: "multiple_of u ?g" by (simp add: list_all_length)
  from ru ri have mr: "multiple_of u ?r" by (simp add: list_all_length)
  from h(1) have ag: "\<bar>?g\<bar> = - ?g" and gpos: "0 < - ?g" by simp_all
  from h(2) have rpos: "0 < ?r" by simp
  have mng: "multiple_of u (- ?g)" by (rule multiple_of_minus[OF u0(2) mg])
  have a: "amountToSettle t = min (- ?g) ?r"
    by (simp add: amountToSettle_def ag)
  show m: "multiple_of u (amountToSettle t)"
    unfolding a using mng mr by (simp add: min_def)
  from multiple_of_at_least[OF u0(1) mng gpos] multiple_of_at_least[OF u0(1) mr rpos]
  show ge: "u \<le> amountToSettle t"
    unfolding a by simp
  show "amountToSettle t \<le> - ?g" "amountToSettle t \<le> ?r"
    unfolding a by simp_all
  have "multiple_of 0.01 (amountToSettle t)"
    by (rule multiple_of_trans[OF _ u0(2) u(2) m]) simp
  moreover from ge u0 have "0 \<le> amountToSettle t" by simp
  ultimately have "toFixed2 (amountToSettle t) = amountToSettle t"
    by (rule toFixed2_cents)
  moreover from ge u(1) have "amountToSettle t > 0.01" by simp
  ultimately show "results (loop_body t) = results t @
      [\<lparr>from = member (givers t ! giverIdx t), to = member (receivers t ! receiverIdx t),
        amount = amountToSettle t\<rparr>]"
    by (simp add: loop_body_fields(5))
qed


lemma list_all_update:
  "list_all P xs \<Longrightarrow> P x \<Longrightarrow> list_all P (xs[i := x])"
  unfolding list_all_iff using set_update_subset_insert[of xs i x] by auto

lemma take_Suc_update:
  "i < length xs \<Longrightarrow> take (Suc i) (xs[i := x]) = take i xs @ [x]"
  by (simp add: take_Suc_conv_app_nth)

lemma distinct_map_nth:
  assumes "distinct (map f xs)" "i < length xs" "j < length xs" "i \<noteq> j"
  shows "f (xs ! i) \<noteq> f (xs ! j)"
proof -
  from assms have "map f xs ! i \<noteq> map f xs ! j"
    by (simp add: nth_eq_iff_index_eq del: nth_map)
  with assms(2,3) show ?thesis by simp
qed

lemma exact_inv_step:
  assumes u: "0.01 < u" "multiple_of 0.01 u"
    and d: "distinct (map member (givers s0))" "distinct (map member (receivers s0))"
    and t: "loop_inv t" "loop_cond t"
    and inv: "exact_inv u s0 t"
  shows "exact_inv u s0 (loop_body t)"
proof -
  let ?gi = "giverIdx t" and ?ri = "receiverIdx t"
  let ?g = "givers t ! ?gi" and ?r = "receivers t ! ?ri"
  let ?a = "amountToSettle t"
  let ?e = "\<lparr>from = member ?g, to = member ?r, amount = ?a\<rparr>"
  from u(1) have u0: "0 < u" "u \<noteq> 0" by simp_all
  from t(2) have gi: "?gi < length (givers t)" and ri: "?ri < length (receivers t)"
    by (simp_all add: loop_cond_def)
  from inv have k1: "map member (givers t) = map member (givers s0)"
    and k1r: "map member (receivers t) = map member (receivers s0)"
    and k2: "map entry.amount (givers t) =
       map (\<lambda>e. entry.amount e + paid (results t) (member e)) (givers s0)"
    and k3: "map entry.amount (receivers t) =
       map (\<lambda>e. entry.amount e - received (results t) (member e)) (receivers s0)"
    and k4: "list_all (\<lambda>e. multiple_of u (entry.amount e)) (givers t)"
    and k4r: "list_all (\<lambda>e. multiple_of u (entry.amount e)) (receivers t)"
    and k5: "list_all (\<lambda>e. entry.amount e = 0) (take ?gi (givers t))"
    and k5r: "list_all (\<lambda>e. entry.amount e = 0) (take ?ri (receivers t))"
    and k6: "sum_list (map entry.amount (givers t)) + sum_list (map entry.amount (receivers t)) =
       sum_list (map entry.amount (givers s0)) + sum_list (map entry.amount (receivers s0))"
    unfolding exact_inv_def by blast+
  note us = units_step[OF u t k4 k4r]
  note f = loop_body_fields[of t]
  from k1 have lg: "length (givers s0) = length (givers t)" by (metis length_map)
  from k1r have lr: "length (receivers s0) = length (receivers t)" by (metis length_map)
  from k4 gi have mg: "multiple_of u (entry.amount ?g)" by (simp add: list_all_length)
  from k4r ri have mr: "multiple_of u (entry.amount ?r)" by (simp add: list_all_length)
  have mg': "multiple_of u (entry.amount ?g + ?a)"
    by (rule multiple_of_add[OF u0(2) mg us(1)])
  have mr': "multiple_of u (entry.amount ?r - ?a)"
    by (rule multiple_of_diff[OF u0(2) mr us(1)])
  \<comment> \<open>members\<close>
  have n1: "map member (givers (loop_body t)) = map member (givers s0)"
    and n1r: "map member (receivers (loop_body t)) = map member (receivers s0)"
    using loop_body_members[OF t(2)] k1 k1r by simp_all
  \<comment> \<open>accounts of the givers\<close>
  have n2: "map entry.amount (givers (loop_body t)) =
       map (\<lambda>e. entry.amount e + paid (results (loop_body t)) (member e)) (givers s0)"
  proof (rule nth_equalityI)
    show "length (map entry.amount (givers (loop_body t))) =
        length (map (\<lambda>e. entry.amount e + paid (results (loop_body t)) (member e)) (givers s0))"
      by (simp add: lg)
  next
    fix i assume "i < length (map entry.amount (givers (loop_body t)))"
    then have i: "i < length (givers t)" by simp
    from k2 i lg have old: "entry.amount (givers t ! i) =
        entry.amount (givers s0 ! i) + paid (results t) (member (givers s0 ! i))"
      by (metis (no_types, lifting) nth_map)
    from k1 i lg have mi: "member (givers t ! i) = member (givers s0 ! i)"
      by (metis nth_map)
    from k1 gi lg have mgi: "member ?g = member (givers s0 ! ?gi)"
      by (metis nth_map)
    have neq: "member ?g \<noteq> member (givers s0 ! i)" if "i \<noteq> ?gi"
    proof -
      from i gi lg that have "member (givers s0 ! ?gi) \<noteq> member (givers s0 ! i)"
        by (intro distinct_map_nth[OF d(1)]) simp_all
      with mgi show ?thesis by simp
    qed
    show "map entry.amount (givers (loop_body t)) ! i =
        map (\<lambda>e. entry.amount e + paid (results (loop_body t)) (member e)) (givers s0) ! i"
    proof (cases "i = ?gi")
      case True
      with i lg old mi show ?thesis by (simp add: f(1) us(5))
    next
      case False
      with i lg old neq show ?thesis by (simp add: f(1) us(5))
    qed
  qed
  \<comment> \<open>accounts of the receivers\<close>
  have n3: "map entry.amount (receivers (loop_body t)) =
       map (\<lambda>e. entry.amount e - received (results (loop_body t)) (member e)) (receivers s0)"
  proof (rule nth_equalityI)
    show "length (map entry.amount (receivers (loop_body t))) =
        length (map (\<lambda>e. entry.amount e - received (results (loop_body t)) (member e)) (receivers s0))"
      by (simp add: lr)
  next
    fix j assume "j < length (map entry.amount (receivers (loop_body t)))"
    then have j: "j < length (receivers t)" by simp
    from k3 j lr have old: "entry.amount (receivers t ! j) =
        entry.amount (receivers s0 ! j) - received (results t) (member (receivers s0 ! j))"
      by (metis (no_types, lifting) nth_map)
    from k1r j lr have mj: "member (receivers t ! j) = member (receivers s0 ! j)"
      by (metis nth_map)
    from k1r ri lr have mri: "member ?r = member (receivers s0 ! ?ri)"
      by (metis nth_map)
    have neq: "member ?r \<noteq> member (receivers s0 ! j)" if "j \<noteq> ?ri"
    proof -
      from j ri lr that have "member (receivers s0 ! ?ri) \<noteq> member (receivers s0 ! j)"
        by (intro distinct_map_nth[OF d(2)]) simp_all
      with mri show ?thesis by simp
    qed
    show "map entry.amount (receivers (loop_body t)) ! j =
        map (\<lambda>e. entry.amount e - received (results (loop_body t)) (member e)) (receivers s0) ! j"
    proof (cases "j = ?ri")
      case True
      with j lr old mj show ?thesis by (simp add: f(2) us(5))
    next
      case False
      with j lr old neq show ?thesis by (simp add: f(2) us(5))
    qed
  qed
  \<comment> \<open>whole units\<close>
  have n4: "list_all (\<lambda>e. multiple_of u (entry.amount e)) (givers (loop_body t))"
    unfolding f(1) by (rule list_all_update[OF k4]) (simp add: mg')
  have n4r: "list_all (\<lambda>e. multiple_of u (entry.amount e)) (receivers (loop_body t))"
    unfolding f(2) by (rule list_all_update[OF k4r]) (simp add: mr')
  \<comment> \<open>those passed are at zero\<close>
  have n5: "list_all (\<lambda>e. entry.amount e = 0) (take (giverIdx (loop_body t)) (givers (loop_body t)))"
  proof (cases "\<bar>entry.amount ?g + ?a\<bar> < 0.01")
    case True
    with u(1) have "\<bar>entry.amount ?g + ?a\<bar> < u" by simp
    from multiple_of_small[OF u0(1) mg' this] True gi k5 show ?thesis
      by (simp add: f(1,3) take_Suc_update)
  next
    case False
    with k5 show ?thesis by (simp add: f(1,3))
  qed
  have n5r: "list_all (\<lambda>e. entry.amount e = 0)
      (take (receiverIdx (loop_body t)) (receivers (loop_body t)))"
  proof (cases "entry.amount ?r - ?a < 0.01")
    case True
    with u(1) us(4) have "\<bar>entry.amount ?r - ?a\<bar> < u" by simp
    from multiple_of_small[OF u0(1) mr' this] True ri k5r show ?thesis
      by (simp add: f(2,4) take_Suc_update)
  next
    case False
    with k5r show ?thesis by (simp add: f(2,4))
  qed
  \<comment> \<open>the sum\<close>
  have n6: "sum_list (map entry.amount (givers (loop_body t))) +
      sum_list (map entry.amount (receivers (loop_body t))) =
      sum_list (map entry.amount (givers s0)) + sum_list (map entry.amount (receivers s0))"
    using gi ri k6 by (simp add: f(1,2) sum_list_map_update)
  from n1 n1r n2 n3 n4 n4r n5 n5r n6 show ?thesis
    unfolding exact_inv_def by blast
qed

subsection \<open>Whole units: the initial state\<close>

lemma distinct_map_insort_key:
  "distinct (map f (insort_key k x xs)) \<longleftrightarrow> f x \<notin> f ` set xs \<and> distinct (map f xs)"
  by (induction xs) (auto simp: set_insort_key)

lemma distinct_map_sort_key:
  "distinct (map f (sort_key k xs)) \<longleftrightarrow> distinct (map f xs)"
  by (induction xs) (simp_all add: distinct_map_insort_key)

lemma init_distinct:
  assumes "distinct (map fst nb)"
  shows "distinct (map member (givers (init_state nb)))"
    and "distinct (map member (receivers (init_state nb)))"
  using assms
  by (simp_all add: init_state_simps separate_eq sort_givers_def sort_receivers_def
        distinct_map_sort_key o_def case_prod_unfold distinct_map_filter)

lemma init_sets:
  "set (givers (init_state nb)) =
     (\<lambda>(m, a). \<lparr>member = m, amount = a\<rparr>) ` {kv \<in> set nb. snd kv < - 0.01}"
  "set (receivers (init_state nb)) =
     (\<lambda>(m, a). \<lparr>member = m, amount = a\<rparr>) ` {kv \<in> set nb. snd kv > 0.01}"
  by (auto simp: init_state_simps separate_eq sort_givers_def sort_receivers_def)

lemma init_lookup:
  assumes "distinct (map fst nb)"
    and "e \<in> set (givers (init_state nb)) \<or> e \<in> set (receivers (init_state nb))"
  shows "map_of nb (member e) = Some (entry.amount e)"
proof -
  from assms(2) have "(member e, entry.amount e) \<in> set nb"
    by (auto simp: init_sets)
  with assms(1) show ?thesis by simp
qed

lemma init_units:
  assumes "list_all (\<lambda>(p, b). multiple_of u b) nb"
  shows "list_all (\<lambda>e. multiple_of u (entry.amount e)) (givers (init_state nb))"
    and "list_all (\<lambda>e. multiple_of u (entry.amount e)) (receivers (init_state nb))"
  using assms by (auto simp: list_all_iff init_sets)

lemma sum_partition:
  assumes "\<forall>kv\<in>set nb. \<not> snd kv < - 0.01 \<and> \<not> snd kv > 0.01 \<longrightarrow> snd kv = (0::real)"
  shows "sum_list (map snd nb) =
     sum_list (map snd (filter (\<lambda>(m, a). a < - 0.01) nb)) +
     sum_list (map snd (filter (\<lambda>(m, a). a > 0.01) nb))"
  using assms by (induction nb) (auto simp: case_prod_unfold)

lemma init_sum:
  assumes "0.01 < u" "list_all (\<lambda>(p, b). multiple_of u b) nb"
  shows "sum_list (map entry.amount (givers (init_state nb))) +
         sum_list (map entry.amount (receivers (init_state nb))) = sum_list (map snd nb)"
proof -
  have z: "\<forall>kv\<in>set nb. \<not> snd kv < - 0.01 \<and> \<not> snd kv > 0.01 \<longrightarrow> snd kv = 0"
  proof (intro ballI impI)
    fix kv assume kv: "kv \<in> set nb" "\<not> snd kv < - 0.01 \<and> \<not> snd kv > 0.01"
    from assms(2) kv(1) have "multiple_of u (snd kv)"
      by (auto simp: list_all_iff)
    moreover from kv(2) assms(1) have "\<bar>snd kv\<bar> < u" by (auto simp: abs_if)
    ultimately show "snd kv = 0"
      using assms(1) by (intro multiple_of_small[of u]) simp_all
  qed
  have "entry.amount \<circ> (\<lambda>(m, a). \<lparr>member = m, amount = a\<rparr>) = (snd :: string \<times> real \<Rightarrow> real)"
    by (auto simp: fun_eq_iff)
  then show ?thesis
    by (simp add: init_state_simps separate_eq sort_givers_def sort_receivers_def
          sum_list_sort_key sum_partition[OF z])
qed

lemma init_exact:
  assumes "list_all (\<lambda>(p, b). multiple_of u b) nb"
  shows "exact_inv u (init_state nb) (init_state nb)"
  unfolding exact_inv_def using init_units[OF assms]
  by (simp add: init_state_simps(3,4,5))

subsection \<open>Whole units: the final state\<close>

lemma sum_zeros:
  fixes f :: "'a \<Rightarrow> real"
  shows "list_all (\<lambda>e. f e = 0) xs \<Longrightarrow> sum_list (map f xs) = 0"
  by (induction xs) simp_all

lemma sum_positive_empty:
  fixes f :: "'a \<Rightarrow> real"
  assumes "list_all (\<lambda>e. 0.01 \<le> f e) xs" "sum_list (map f xs) \<le> 0"
  shows "xs = []"
proof (cases xs)
  case Nil
  then show ?thesis .
next
  case (Cons y ys)
  with assms(1) have y: "0.01 \<le> f y" and ys: "\<forall>e\<in>set ys. 0.01 \<le> f e"
    by (simp_all add: list_all_iff)
  have "0 \<le> sum_list (map f ys)"
  proof (rule sum_list_nonneg)
    fix x assume "x \<in> set (map f ys)"
    then obtain e where "e \<in> set ys" "x = f e" by auto
    with ys have "0.01 \<le> x" by simp
    then show "0 \<le> x" by simp
  qed
  with y assms(2) Cons show ?thesis by simp
qed

lemma sum_take_drop:
  fixes f :: "'a \<Rightarrow> real"
  shows "sum_list (map f xs) = sum_list (map f (take n xs)) + sum_list (map f (drop n xs))"
proof -
  have "sum_list (map f (take n xs @ drop n xs)) =
      sum_list (map f (take n xs)) + sum_list (map f (drop n xs))"
    by (simp only: map_append sum_list_append)
  then show ?thesis by simp
qed

lemma all_settled:
  assumes t: "loop_inv t" "\<not> loop_cond t"
    and zg: "list_all (\<lambda>e. entry.amount e = 0) (take (giverIdx t) (givers t))"
    and zr: "list_all (\<lambda>e. entry.amount e = 0) (take (receiverIdx t) (receivers t))"
    and s: "sum_list (map entry.amount (givers t)) + sum_list (map entry.amount (receivers t)) = 0"
  shows "list_all (\<lambda>e. entry.amount e = 0) (givers t)"
    and "list_all (\<lambda>e. entry.amount e = 0) (receivers t)"
proof -
  from t(1) have pr: "list_all (\<lambda>e. 0.01 \<le> entry.amount e) (drop (receiverIdx t) (receivers t))"
    and "list_all (\<lambda>e. entry.amount e \<le> - 0.01) (drop (giverIdx t) (givers t))"
    unfolding loop_inv_def by blast+
  then have pg: "list_all (\<lambda>e. 0.01 \<le> - entry.amount e) (drop (giverIdx t) (givers t))"
    unfolding list_all_iff by auto
  have sg: "sum_list (map entry.amount (givers t)) =
      sum_list (map entry.amount (drop (giverIdx t) (givers t)))"
    using sum_take_drop[of entry.amount "givers t" "giverIdx t"] sum_zeros[OF zg] by simp
  have sr: "sum_list (map entry.amount (receivers t)) =
      sum_list (map entry.amount (drop (receiverIdx t) (receivers t)))"
    using sum_take_drop[of entry.amount "receivers t" "receiverIdx t"] sum_zeros[OF zr] by simp
  have neg: "sum_list (map (\<lambda>e. - entry.amount e) xs) = - sum_list (map entry.amount xs)"
    for xs :: "entry list"
    by (induction xs) simp_all
  from t have "length (givers t) \<le> giverIdx t \<or> length (receivers t) \<le> receiverIdx t"
    by (auto simp: loop_cond_def)
  then have "drop (giverIdx t) (givers t) = [] \<and> drop (receiverIdx t) (receivers t) = []"
  proof
    assume a: "length (givers t) \<le> giverIdx t"
    then have dg: "drop (giverIdx t) (givers t) = []" by simp
    with sg s sr have "sum_list (map entry.amount (drop (receiverIdx t) (receivers t))) \<le> 0"
      by simp
    from sum_positive_empty[OF pr this] dg show ?thesis by simp
  next
    assume a: "length (receivers t) \<le> receiverIdx t"
    then have dr: "drop (receiverIdx t) (receivers t) = []" by simp
    with sg s sr have "sum_list (map (\<lambda>e. - entry.amount e) (drop (giverIdx t) (givers t))) \<le> 0"
      by (simp add: neg)
    from sum_positive_empty[OF pg this] dr show ?thesis by simp
  qed
  then have "take (giverIdx t) (givers t) = givers t"
    and "take (receiverIdx t) (receivers t) = receivers t"
    by simp_all
  with zg zr show "list_all (\<lambda>e. entry.amount e = 0) (givers t)"
    and "list_all (\<lambda>e. entry.amount e = 0) (receivers t)"
    by simp_all
qed


lemma match_loop_exact:
  assumes "distinct (map fst nb)" "0.01 < u" "multiple_of 0.01 u"
    and "list_all (\<lambda>(p, b). multiple_of u b) nb"
  shows "\<exists>t. match_loop (init_state nb) = Some t \<and> loop_inv t \<and>
           exact_inv u (init_state nb) t \<and> \<not> loop_cond t"
proof (rule match_loop_rule[where I = "exact_inv u (init_state nb)"])
  show "loop_inv (init_state nb)" by (rule loop_inv_init)
  show "exact_inv u (init_state nb) (init_state nb)" by (rule init_exact[OF assms(4)])
next
  fix t assume "loop_inv t" "exact_inv u (init_state nb) t" "loop_cond t"
  then show "exact_inv u (init_state nb) (loop_body t)"
    by (intro exact_inv_step[OF assms(2,3) init_distinct[OF assms(1)]])
qed

subsection \<open>simplifyDebts: applying the plan\<close>

text \<open>C1, as amended: take a balance map (distinct keys) whose balances sum to zero and are
  all whole multiples of a unit \<open>u\<close> that is larger than \<open>0.01\<close> and itself a whole number of
  hundredths (whole rupees, say, with \<open>u = 1\<close>). Then \<^verbatim>\<open>simplifyDebts\<close> returns a plan, and
  applying every edge of it to the map (debtor \<open>+= amount\<close>, creditor \<open>-= amount\<close>) leaves
  every participant at exactly zero, hence within \<open>0.01\<close> of zero.\<close>

theorem simplifyDebts_settles_whole_units:
  assumes "distinct (map fst nb)" and "sum_list (map snd nb) = 0"
    and "0.01 < u" and "multiple_of 0.01 u"
    and "list_all (\<lambda>(p, b). multiple_of u b) nb"
  shows "\<exists>es. simplifyDebts nb = Some es \<and> (\<forall>p. apply_edges nb es p = 0)"
proof -
  let ?s0 = "init_state nb"
  from match_loop_exact[OF assms(1,3,4,5)] obtain t where t: "match_loop ?s0 = Some t"
    "loop_inv t" "exact_inv u ?s0 t" "\<not> loop_cond t" by blast
  from results_endpoints[of nb] t(1)
  have ends: "\<forall>e\<in>set (results t). from e \<in> fst ` set (debtors_of nb) \<and>
      to e \<in> fst ` set (creditors_of nb)"
    by auto
  from t(3) have k1: "map member (givers t) = map member (givers ?s0)"
    and k1r: "map member (receivers t) = map member (receivers ?s0)"
    and k2: "map entry.amount (givers t) =
       map (\<lambda>e. entry.amount e + paid (results t) (member e)) (givers ?s0)"
    and k3: "map entry.amount (receivers t) =
       map (\<lambda>e. entry.amount e - received (results t) (member e)) (receivers ?s0)"
    and k5: "list_all (\<lambda>e. entry.amount e = 0) (take (giverIdx t) (givers t))"
    and k5r: "list_all (\<lambda>e. entry.amount e = 0) (take (receiverIdx t) (receivers t))"
    and k6: "sum_list (map entry.amount (givers t)) + sum_list (map entry.amount (receivers t)) =
       sum_list (map entry.amount (givers ?s0)) + sum_list (map entry.amount (receivers ?s0))"
    unfolding exact_inv_def by blast+
  from k6 init_sum[OF assms(3,5)] assms(2)
  have "sum_list (map entry.amount (givers t)) + sum_list (map entry.amount (receivers t)) = 0"
    by simp
  note z = all_settled[OF t(2,4) k5 k5r this]
  from k1 have lg: "length (givers ?s0) = length (givers t)" by (metis length_map)
  from k1r have lr: "length (receivers ?s0) = length (receivers t)" by (metis length_map)
  note disj = debtors_creditors_disjoint[OF assms(1)]
  have "apply_edges nb (results t) p = 0" for p
  proof -
    consider (giver) "p \<in> member ` set (givers ?s0)"
      | (receiver) "p \<in> member ` set (receivers ?s0)"
      | (neither) "p \<notin> member ` set (givers ?s0)" "p \<notin> member ` set (receivers ?s0)"
      by blast
    then show ?thesis
    proof cases
      case giver
      then obtain i where i: "i < length (givers ?s0)" "member (givers ?s0 ! i) = p"
        by (auto simp: in_set_conv_nth)
      from z(1) i(1) lg have "entry.amount (givers t ! i) = 0"
        by (simp add: list_all_length)
      moreover from k2 i(1) lg have "entry.amount (givers t ! i) =
          entry.amount (givers ?s0 ! i) + paid (results t) (member (givers ?s0 ! i))"
        by (metis (no_types, lifting) nth_map)
      moreover from i(1) have "map_of nb (member (givers ?s0 ! i)) = Some (entry.amount (givers ?s0 ! i))"
        by (intro init_lookup[OF assms(1)]) simp
      moreover have "received (results t) p = 0"
      proof (rule received_none, rule ballI)
        fix e assume "e \<in> set (results t)"
        with ends have "to e \<in> fst ` set (creditors_of nb)" by blast
        moreover from giver have "p \<in> fst ` set (debtors_of nb)" by (simp add: init_members)
        ultimately show "to e \<noteq> p" using disj by blast
      qed
      ultimately show ?thesis
        using i(2) by (simp add: apply_edges_eq balance_of_def)
    next
      case receiver
      then obtain j where j: "j < length (receivers ?s0)" "member (receivers ?s0 ! j) = p"
        by (auto simp: in_set_conv_nth)
      from z(2) j(1) lr have "entry.amount (receivers t ! j) = 0"
        by (simp add: list_all_length)
      moreover from k3 j(1) lr have "entry.amount (receivers t ! j) =
          entry.amount (receivers ?s0 ! j) - received (results t) (member (receivers ?s0 ! j))"
        by (metis (no_types, lifting) nth_map)
      moreover from j(1)
      have "map_of nb (member (receivers ?s0 ! j)) = Some (entry.amount (receivers ?s0 ! j))"
        by (intro init_lookup[OF assms(1)]) simp
      moreover have "paid (results t) p = 0"
      proof (rule paid_none, rule ballI)
        fix e assume "e \<in> set (results t)"
        with ends have "from e \<in> fst ` set (debtors_of nb)" by blast
        moreover from receiver have "p \<in> fst ` set (creditors_of nb)" by (simp add: init_members)
        ultimately show "from e \<noteq> p" using disj by blast
      qed
      ultimately show ?thesis
        using j(2) by (simp add: apply_edges_eq balance_of_def)
    next
      case neither
      then have nd: "p \<notin> fst ` set (debtors_of nb)" and nc: "p \<notin> fst ` set (creditors_of nb)"
        by (simp_all add: init_members)
      have "paid (results t) p = 0"
      proof (rule paid_none, rule ballI)
        fix e assume "e \<in> set (results t)"
        with ends have "from e \<in> fst ` set (debtors_of nb)" by blast
        with nd show "from e \<noteq> p" by blast
      qed
      moreover have "received (results t) p = 0"
      proof (rule received_none, rule ballI)
        fix e assume "e \<in> set (results t)"
        with ends have "to e \<in> fst ` set (creditors_of nb)" by blast
        with nc show "to e \<noteq> p" by blast
      qed
      moreover have "balance_of nb p = 0"
      proof (cases "map_of nb p")
        case None
        then show ?thesis by (simp add: balance_of_def)
      next
        case (Some b)
        then have in_nb: "(p, b) \<in> set nb" by (rule map_of_SomeD)
        with nd have "\<not> b < - 0.01"
          by (force simp: debtors_of_def spec_eps_def)
        moreover from in_nb nc have "\<not> b > 0.01"
          by (force simp: creditors_of_def spec_eps_def)
        ultimately have "\<bar>b\<bar> < u" using assms(3) by (auto simp: abs_if)
        moreover from assms(5) in_nb have "multiple_of u b"
          by (auto simp: list_all_iff)
        ultimately have "b = 0"
          using assms(3) by (intro multiple_of_small[of u]) simp_all
        with Some show ?thesis by (simp add: balance_of_def)
      qed
      ultimately show ?thesis by (simp add: apply_edges_eq)
    qed
  qed
  with t(1) show ?thesis
    by (simp add: simplifyDebts_def simplifyDebts_run_def)
qed

theorem simplifyDebts_settles_whole_units_witness:
  "distinct (map fst [(''A'', 200 :: real), (''B'', - 100), (''C'', - 100)]) \<and>
   sum_list (map snd [(''A'', 200 :: real), (''B'', - 100), (''C'', - 100)]) = 0 \<and>
   (0.01 :: real) < 1 \<and> multiple_of 0.01 1 \<and>
   list_all (\<lambda>(p, b). multiple_of 1 b) [(''A'', 200), (''B'', - 100), (''C'', - 100)] \<and>
   simplifyDebts [(''A'', 200), (''B'', - 100), (''C'', - 100)] =
     Some [\<lparr>from = ''B'', to = ''A'', amount = 100\<rparr>, \<lparr>from = ''C'', to = ''A'', amount = 100\<rparr>] \<and>
   (\<forall>p. apply_edges [(''A'', 200), (''B'', - 100), (''C'', - 100)]
     [\<lparr>from = ''B'', to = ''A'', amount = 100\<rparr>, \<lparr>from = ''C'', to = ''A'', amount = 100\<rparr>] p = 0)"
proof -
  let ?nb = "[(''A'', 200), (''B'', - 100), (''C'', - 100)] :: balances"
  have h1: "distinct (map fst ?nb)" by simp
  have h2: "sum_list (map snd ?nb) = 0" by simp
  have h3: "(0.01 :: real) < 1" by simp
  have h4: "multiple_of 0.01 1" by (simp add: multiple_of_def)
  have "multiple_of 1 (- 100)" "multiple_of 1 200"
    unfolding multiple_of_iff[of 1, simplified] by (rule exI[of _ "- 100"], simp) (rule exI[of _ 200], simp)
  then have h5: "list_all (\<lambda>(p, b). multiple_of 1 b) ?nb" by simp
  have v: "simplifyDebts ?nb =
     Some [\<lparr>from = ''B'', to = ''A'', amount = 100\<rparr>, \<lparr>from = ''C'', to = ''A'', amount = 100\<rparr>]"
    by code_simp
  from simplifyDebts_settles_whole_units[OF h1 h2 h3 h4 h5] v
  have "\<forall>p. apply_edges ?nb
     [\<lparr>from = ''B'', to = ''A'', amount = 100\<rparr>, \<lparr>from = ''C'', to = ''A'', amount = 100\<rparr>] p = 0"
    by simp
  with h1 h2 h3 h4 h5 v show ?thesis by blast
qed

text \<open>The claim as stated, for every map, fails already on the balances that
  \<^verbatim>\<open>calculateNetBalances\<close> returns when \<open>A\<close> pays 100 for a roster of seven: each of the six
  debtors owes \<open>100/7\<close>, every edge is rounded up to \<open>14.29\<close>, and applying the six edges
  leaves \<open>A\<close> at \<open>600/7 - 85.74\<close>, about \<open>-0.026\<close>.\<close>

theorem simplifyDebts_settles_counterexample:
  "calculateNetBalances [\<lparr>paidBy = ''A'', amount = 100, splitBetween = Some []\<rparr>]
     [''A'', ''B'', ''C'', ''D'', ''E'', ''F'', ''G''] =
     [(''A'', 600 / 7), (''B'', - (100 / 7)), (''C'', - (100 / 7)), (''D'', - (100 / 7)),
      (''E'', - (100 / 7)), (''F'', - (100 / 7)), (''G'', - (100 / 7))] \<and>
   simplifyDebts
     [(''A'', 600 / 7), (''B'', - (100 / 7)), (''C'', - (100 / 7)), (''D'', - (100 / 7)),
      (''E'', - (100 / 7)), (''F'', - (100 / 7)), (''G'', - (100 / 7))] =
     Some [\<lparr>from = ''B'', to = ''A'', amount = 14.29\<rparr>, \<lparr>from = ''C'', to = ''A'', amount = 14.29\<rparr>,
           \<lparr>from = ''D'', to = ''A'', amount = 14.29\<rparr>, \<lparr>from = ''E'', to = ''A'', amount = 14.29\<rparr>,
           \<lparr>from = ''F'', to = ''A'', amount = 14.29\<rparr>, \<lparr>from = ''G'', to = ''A'', amount = 14.29\<rparr>] \<and>
   \<not> \<bar>apply_edges
     [(''A'', 600 / 7), (''B'', - (100 / 7)), (''C'', - (100 / 7)), (''D'', - (100 / 7)),
      (''E'', - (100 / 7)), (''F'', - (100 / 7)), (''G'', - (100 / 7))]
     [\<lparr>from = ''B'', to = ''A'', amount = 14.29\<rparr>, \<lparr>from = ''C'', to = ''A'', amount = 14.29\<rparr>,
      \<lparr>from = ''D'', to = ''A'', amount = 14.29\<rparr>, \<lparr>from = ''E'', to = ''A'', amount = 14.29\<rparr>,
      \<lparr>from = ''F'', to = ''A'', amount = 14.29\<rparr>, \<lparr>from = ''G'', to = ''A'', amount = 14.29\<rparr>] ''A''\<bar>
     \<le> 0.01"
proof -
  have a: "calculateNetBalances [\<lparr>paidBy = ''A'', amount = 100, splitBetween = Some []\<rparr>]
     [''A'', ''B'', ''C'', ''D'', ''E'', ''F'', ''G''] =
     [(''A'', 600 / 7), (''B'', - (100 / 7)), (''C'', - (100 / 7)), (''D'', - (100 / 7)),
      (''E'', - (100 / 7)), (''F'', - (100 / 7)), (''G'', - (100 / 7))]"
    by code_simp
  have b: "simplifyDebts
     [(''A'', 600 / 7), (''B'', - (100 / 7)), (''C'', - (100 / 7)), (''D'', - (100 / 7)),
      (''E'', - (100 / 7)), (''F'', - (100 / 7)), (''G'', - (100 / 7))] =
     Some [\<lparr>from = ''B'', to = ''A'', amount = 14.29\<rparr>, \<lparr>from = ''C'', to = ''A'', amount = 14.29\<rparr>,
           \<lparr>from = ''D'', to = ''A'', amount = 14.29\<rparr>, \<lparr>from = ''E'', to = ''A'', amount = 14.29\<rparr>,
           \<lparr>from = ''F'', to = ''A'', amount = 14.29\<rparr>, \<lparr>from = ''G'', to = ''A'', amount = 14.29\<rparr>]"
    by code_simp
  have c: "\<not> \<bar>apply_edges
     [(''A'', 600 / 7), (''B'', - (100 / 7)), (''C'', - (100 / 7)), (''D'', - (100 / 7)),
      (''E'', - (100 / 7)), (''F'', - (100 / 7)), (''G'', - (100 / 7))]
     [\<lparr>from = ''B'', to = ''A'', amount = 14.29\<rparr>, \<lparr>from = ''C'', to = ''A'', amount = 14.29\<rparr>,
      \<lparr>from = ''D'', to = ''A'', amount = 14.29\<rparr>, \<lparr>from = ''E'', to = ''A'', amount = 14.29\<rparr>,
      \<lparr>from = ''F'', to = ''A'', amount = 14.29\<rparr>, \<lparr>from = ''G'', to = ''A'', amount = 14.29\<rparr>] ''A''\<bar>
     \<le> 0.01"
    by (simp add: apply_edges_eq balance_of_def)
  from a b c show ?thesis by blast
qed

text \<open>Whole hundredths are not enough for the amended statement: on these balances, which
  sum to zero, the three creditors hold exactly \<open>0.01\<close> each and are in neither list, so no
  edge is emitted and \<open>A\<close> stays at \<open>-0.03\<close>.\<close>

lemma simplifyDebts_whole_cents_residual:
  "simplifyDebts [(''A'', - 0.03), (''B'', 0.01), (''C'', 0.01), (''D'', 0.01)] = Some [] \<and>
   apply_edges [(''A'', - 0.03), (''B'', 0.01), (''C'', 0.01), (''D'', 0.01)] [] ''A'' = - 0.03"
proof -
  have "simplifyDebts [(''A'', - 0.03), (''B'', 0.01), (''C'', 0.01), (''D'', 0.01)] = Some []"
    by code_simp
  then show ?thesis
    by (simp add: apply_edges_eq balance_of_def)
qed

end
